theory Spec2Isabelle
  imports
    Complex_Main
    "HOL-Library.Char_ord"
    "HOL-Library.List_Lexorder"
    "HOL-Library.Signed_Division"
    "HOL-Library.Word"
    "HOL-Library.Multiset"
begin

section \<open>Data model\<close>

text \<open>
  The search server of \<^verbatim>\<open>src/unnamed/part_001\<close> (first translation unit), the request
  queue of \<^verbatim>\<open>src/unnamed/part_000\<close> and the paginator of
  \<^verbatim>\<open>src/search-server/paginator.h\<close>.

  Conventions of the embedding:
  \<^item> \<^verbatim>\<open>int\<close> is \<open>int\<close> (signed overflow is undefined behaviour in C++ and is not
    modelled; integer division truncates toward zero, written \<open>sdiv\<close>);
  \<^item> \<^verbatim>\<open>double\<close> is \<open>real\<close>: arithmetic is exact, rounding is not modelled;
  \<^item> \<^verbatim>\<open>std::string\<close> is \<open>string\<close>, a list of bytes, ordered lexicographically
    by byte value as \<^verbatim>\<open>std::string::compare\<close> orders it;
  \<^item> \<^verbatim>\<open>std::map\<close> is an association list whose keys ascend strictly, and
    \<^verbatim>\<open>std::set\<close> a strictly ascending list, so that a range-for loop over the
    container is a recursion over the list;
  \<^item> a \<^verbatim>\<open>throw\<close> is a value \<open>Inl e\<close>; a member function that mutates the object
    returns the object as it is when the function is left.
\<close>

datatype DocumentStatus = ACTUAL | IRRELEVANT | BANNED | REMOVED

record Document =
  doc_id :: int
  relevance :: real
  rating :: int

record DocumentData =
  rating_d :: int
  status :: DocumentStatus

record QueryWord =
  data :: string
  is_minus :: bool
  is_stop :: bool

record Query =
  plus_words :: "string list"
  minus_words :: "string list"

record SearchServer =
  stop_words :: "string list"
  word_to_document_freqs :: "(string \<times> (int \<times> real) list) list"
  documents :: "(int \<times> DocumentData) list"
  document_id_sequence :: "int list"

text \<open>One constructor for each \<^verbatim>\<open>throw\<close> of the source.\<close>

datatype error =
    IncorrectStopWords
  | NegativeDocumentId
  | DocumentIdExists
  | InvalidDocumentCharacters
  | EmptySearchRequest
  | DoubleMinus
  | MinusWithoutText
  | InvalidQueryCharacters
  | DocumentIdOutOfRange
  | MapAtOutOfRange
  | VectorIndexOutOfBounds



definition MAX_RESULT_DOCUMENT_COUNT :: nat where
  "MAX_RESULT_DOCUMENT_COUNT = 5"

definition EPSILON :: real where
  "EPSILON = 1 / 1000000"

section \<open>Standard containers\<close>

text \<open>\<^verbatim>\<open>m.count(k)\<close> of a map, as a truth value.\<close>

definition map_count :: "('k \<times> 'v) list \<Rightarrow> 'k \<Rightarrow> bool" where
  "map_count m k = (map_of m k \<noteq> None)"

text \<open>\<^verbatim>\<open>m.at(k)\<close> throws \<^verbatim>\<open>std::out_of_range\<close> on an absent key.\<close>

definition map_at :: "('k \<times> 'v) list \<Rightarrow> 'k \<Rightarrow> error + 'v" where
  "map_at m k = (case map_of m k of None \<Rightarrow> Inl MapAtOutOfRange | Some v \<Rightarrow> Inr v)"

text \<open>Storing \<open>v\<close> under \<open>k\<close>: the entry is replaced, or created at its place in key order.\<close>

fun map_put :: "'k::linorder \<Rightarrow> 'v \<Rightarrow> ('k \<times> 'v) list \<Rightarrow> ('k \<times> 'v) list" where
  "map_put k v [] = [(k, v)]"
| "map_put k v (e # m) =
     (if fst e = k then (k, v) # m
      else if k < fst e then (k, v) # e # m
      else e # map_put k v m)"

text \<open>\<^verbatim>\<open>m.emplace(k, v)\<close> leaves an existing entry alone.\<close>

definition map_emplace :: "'k::linorder \<Rightarrow> 'v \<Rightarrow> ('k \<times> 'v) list \<Rightarrow> ('k \<times> 'v) list" where
  "map_emplace k v m = (if map_count m k then m else map_put k v m)"

text \<open>\<^verbatim>\<open>m[k]\<close> read before it is assigned: the value stored, or a value-initialised one.\<close>

definition map_index :: "('k \<times> 'v) list \<Rightarrow> 'k \<Rightarrow> 'v \<Rightarrow> 'v" where
  "map_index m k dflt = (case map_of m k of None \<Rightarrow> dflt | Some v \<Rightarrow> v)"

definition map_erase :: "'k \<Rightarrow> ('k \<times> 'v) list \<Rightarrow> ('k \<times> 'v) list" where
  "map_erase k m = filter (\<lambda>e. fst e \<noteq> k) m"

text \<open>\<^verbatim>\<open>s.insert(x)\<close> of a \<^verbatim>\<open>std::set\<close>.\<close>

definition set_insert :: "'a::linorder \<Rightarrow> 'a list \<Rightarrow> 'a list" where
  "set_insert x xs = (if x \<in> set xs then xs else insort x xs)"

text \<open>\<^verbatim>\<open>s[0]\<close> of a \<^verbatim>\<open>std::string\<close>: the terminating zero byte when the string is empty.\<close>

definition front_char :: "string \<Rightarrow> char" where
  "front_char s = (case s of [] \<Rightarrow> CHR 0x00 | c # _ \<Rightarrow> c)"

section \<open>Tokenizer\<close>

fun SplitIntoWords_loop :: "string \<Rightarrow> string list \<Rightarrow> string \<Rightarrow> string list" where
  "SplitIntoWords_loop [] words word = (if word \<noteq> [] then words @ [word] else words)"
| "SplitIntoWords_loop (c # cs) words word =
     (if c = CHR '' '' then
        (if word \<noteq> [] then SplitIntoWords_loop cs (words @ [word]) []
         else SplitIntoWords_loop cs words word)
      else SplitIntoWords_loop cs words (word @ [c]))"

definition SplitIntoWords :: "string \<Rightarrow> string list" where
  "SplitIntoWords text = SplitIntoWords_loop text [] []"

text \<open>
  \<^verbatim>\<open>c >= '\0' && c < ' '\<close>: whether \<^verbatim>\<open>char\<close> is signed or not, the bytes that satisfy it
  are those of value 0 to 31.
\<close>

definition IsValidWord :: "string \<Rightarrow> bool" where
  "IsValidWord word = list_all (\<lambda>c. \<not> (of_char c :: nat) < 32) word"

definition IsStopWord :: "SearchServer \<Rightarrow> string \<Rightarrow> bool" where
  "IsStopWord s word = (word \<in> set (stop_words s))"

section \<open>Construction\<close>

definition MakeUniqueNonEmptyStrings :: "string list \<Rightarrow> string list" where
  "MakeUniqueNonEmptyStrings strings =
     fold (\<lambda>str non_empty_strings.
             if str \<noteq> [] then set_insert str non_empty_strings else non_empty_strings)
       strings []"

text \<open>The loop of the constructor over the set of words, in ascending order.\<close>

fun insert_stop_words :: "string list \<Rightarrow> string list \<Rightarrow> error + string list" where
  "insert_stop_words [] acc = Inr acc"
| "insert_stop_words (word # words) acc =
     (if IsValidWord word then insert_stop_words words (set_insert word acc)
      else Inl IncorrectStopWords)"

definition SearchServer_of_container :: "string list \<Rightarrow> error + SearchServer" where
  "SearchServer_of_container stop_words_arg =
     (case insert_stop_words (MakeUniqueNonEmptyStrings stop_words_arg) [] of
        Inl e \<Rightarrow> Inl e
      | Inr sw \<Rightarrow> Inr \<lparr>stop_words = sw, word_to_document_freqs = [],
                       documents = [], document_id_sequence = []\<rparr>)"

definition SearchServer_of_text :: "string \<Rightarrow> error + SearchServer" where
  "SearchServer_of_text stop_words_text = SearchServer_of_container (SplitIntoWords stop_words_text)"

section \<open>Query parser\<close>

definition ParseQueryWord :: "SearchServer \<Rightarrow> string \<Rightarrow> error + QueryWord" where
  "ParseQueryWord s text =
     (if IsValidWord text then
        (if front_char text = CHR ''-'' then
           (let text' = drop 1 text
            in if front_char text' = CHR ''-'' then Inl DoubleMinus
               else if text' = [] then Inl MinusWithoutText
               else Inr \<lparr>data = text', is_minus = True, is_stop = IsStopWord s text'\<rparr>)
         else Inr \<lparr>data = text, is_minus = False, is_stop = IsStopWord s text\<rparr>)
      else Inl InvalidQueryCharacters)"

fun ParseQuery_loop :: "SearchServer \<Rightarrow> string list \<Rightarrow> Query \<Rightarrow> error + Query" where
  "ParseQuery_loop s [] query = Inr query"
| "ParseQuery_loop s (word # words) query =
     (case ParseQueryWord s word of
        Inl e \<Rightarrow> Inl e
      | Inr query_word \<Rightarrow>
          (if \<not> is_stop query_word then
             (if is_minus query_word then
                ParseQuery_loop s words
                  (query\<lparr>minus_words := set_insert (data query_word) (minus_words query)\<rparr>)
              else
                ParseQuery_loop s words
                  (query\<lparr>plus_words := set_insert (data query_word) (plus_words query)\<rparr>))
           else ParseQuery_loop s words query))"

definition ParseQuery :: "SearchServer \<Rightarrow> string \<Rightarrow> error + Query" where
  "ParseQuery s text =
     ParseQuery_loop s (SplitIntoWords text) \<lparr>plus_words = [], minus_words = []\<rparr>"

section \<open>Document store and inverted index\<close>

fun SplitIntoWordsNoStop_loop ::
  "SearchServer \<Rightarrow> string list \<Rightarrow> string list \<Rightarrow> error + string list" where
  "SplitIntoWordsNoStop_loop s [] words = Inr words"
| "SplitIntoWordsNoStop_loop s (word # rest) words =
     (if IsValidWord word then
        (if \<not> IsStopWord s word then SplitIntoWordsNoStop_loop s rest (words @ [word])
         else SplitIntoWordsNoStop_loop s rest words)
      else Inl InvalidDocumentCharacters)"

definition SplitIntoWordsNoStop :: "SearchServer \<Rightarrow> string \<Rightarrow> error + string list" where
  "SplitIntoWordsNoStop s text = SplitIntoWordsNoStop_loop s (SplitIntoWords text) []"

definition ComputeAverageRating :: "int list \<Rightarrow> int" where
  "ComputeAverageRating ratings =
     (if ratings = [] then 0
      else fold (\<lambda>r rating_sum. rating_sum + r) ratings 0 sdiv int (length ratings))"

text \<open>\<^verbatim>\<open>word_to_document_freqs_[word][document_id] += inv_word_count\<close>\<close>

definition add_word_freq ::
  "int \<Rightarrow> real \<Rightarrow> string \<Rightarrow> (string \<times> (int \<times> real) list) list
     \<Rightarrow> (string \<times> (int \<times> real) list) list" where
  "add_word_freq document_id inv_word_count word freqs =
     (let postings = map_index freqs word []
      in map_put word
           (map_put document_id (map_index postings document_id 0 + inv_word_count) postings)
           freqs)"

text \<open>
  \<^verbatim>\<open>1.0 / words.size()\<close> is infinite when no word is left; the loop that reads it then
  runs no iteration, so the quotient that HOL gives instead is never stored.
\<close>

definition AddDocument ::
  "int \<Rightarrow> string \<Rightarrow> DocumentStatus \<Rightarrow> int list \<Rightarrow> SearchServer
     \<Rightarrow> (error + unit) \<times> SearchServer" where
  "AddDocument document_id document st ratings s =
     (if document_id < 0 then (Inl NegativeDocumentId, s)
      else if map_count (documents s) document_id then (Inl DocumentIdExists, s)
      else
        (case SplitIntoWordsNoStop s document of
           Inl e \<Rightarrow> (Inl e, s)
         | Inr words \<Rightarrow>
             (let inv_word_count = 1 / real (length words)
              in (Inr (),
                  s\<lparr>word_to_document_freqs :=
                       fold (add_word_freq document_id inv_word_count) words
                         (word_to_document_freqs s),
                     documents :=
                       map_emplace document_id
                         \<lparr>rating_d = ComputeAverageRating ratings, status = st\<rparr> (documents s),
                     document_id_sequence := document_id_sequence s @ [document_id]\<rparr>))))"

definition GetDocumentCount :: "SearchServer \<Rightarrow> int" where
  "GetDocumentCount s = int (length (documents s))"

definition GetDocumentId :: "SearchServer \<Rightarrow> int \<Rightarrow> error + int" where
  "GetDocumentId s index =
     (if index \<ge> 0 \<and> index < GetDocumentCount s then
        (if nat index < length (document_id_sequence s)
         then Inr (document_id_sequence s ! nat index)
         else Inl VectorIndexOutOfBounds)
      else Inl DocumentIdOutOfRange)"




section \<open>Ranking engine\<close>

type_synonym DocumentPredicate = "int \<Rightarrow> DocumentStatus \<Rightarrow> int \<Rightarrow> bool"

definition ComputeWordInverseDocumentFreq :: "SearchServer \<Rightarrow> string \<Rightarrow> error + real" where
  "ComputeWordInverseDocumentFreq s word =
     (case map_at (word_to_document_freqs s) word of
        Inl e \<Rightarrow> Inl e
      | Inr postings \<Rightarrow> Inr (ln (real_of_int (GetDocumentCount s) * 1 / real (length postings))))"

text \<open>The inner loop of the first phase, over the postings of one plus word.\<close>

fun FindAllDocuments_postings ::
  "SearchServer \<Rightarrow> DocumentPredicate \<Rightarrow> real \<Rightarrow> (int \<times> real) list \<Rightarrow> (int \<times> real) list
     \<Rightarrow> error + (int \<times> real) list" where
  "FindAllDocuments_postings s document_predicate inverse_document_freq [] document_to_relevance =
     Inr document_to_relevance"
| "FindAllDocuments_postings s document_predicate inverse_document_freq (posting # rest)
     document_to_relevance =
     (case map_at (documents s) (fst posting) of
        Inl e \<Rightarrow> Inl e
      | Inr document_data \<Rightarrow>
          (if document_predicate (fst posting) (status document_data) (rating_d document_data)
           then FindAllDocuments_postings s document_predicate inverse_document_freq rest
                  (map_put (fst posting)
                     (map_index document_to_relevance (fst posting) 0
                        + snd posting * inverse_document_freq)
                     document_to_relevance)
           else FindAllDocuments_postings s document_predicate inverse_document_freq rest
                  document_to_relevance))"

fun FindAllDocuments_plus ::
  "SearchServer \<Rightarrow> DocumentPredicate \<Rightarrow> string list \<Rightarrow> (int \<times> real) list
     \<Rightarrow> error + (int \<times> real) list" where
  "FindAllDocuments_plus s document_predicate [] document_to_relevance =
     Inr document_to_relevance"
| "FindAllDocuments_plus s document_predicate (word # rest) document_to_relevance =
     (if \<not> map_count (word_to_document_freqs s) word then
        FindAllDocuments_plus s document_predicate rest document_to_relevance
      else
        (case ComputeWordInverseDocumentFreq s word of
           Inl e \<Rightarrow> Inl e
         | Inr inverse_document_freq \<Rightarrow>
             (case map_at (word_to_document_freqs s) word of
                Inl e \<Rightarrow> Inl e
              | Inr postings \<Rightarrow>
                  (case FindAllDocuments_postings s document_predicate inverse_document_freq
                          postings document_to_relevance of
                     Inl e \<Rightarrow> Inl e
                   | Inr updated \<Rightarrow>
                       FindAllDocuments_plus s document_predicate rest updated))))"

fun FindAllDocuments_minus ::
  "SearchServer \<Rightarrow> string list \<Rightarrow> (int \<times> real) list \<Rightarrow> error + (int \<times> real) list" where
  "FindAllDocuments_minus s [] document_to_relevance = Inr document_to_relevance"
| "FindAllDocuments_minus s (word # rest) document_to_relevance =
     (if \<not> map_count (word_to_document_freqs s) word then
        FindAllDocuments_minus s rest document_to_relevance
      else
        (case map_at (word_to_document_freqs s) word of
           Inl e \<Rightarrow> Inl e
         | Inr postings \<Rightarrow>
             FindAllDocuments_minus s rest
               (fold (\<lambda>posting m. map_erase (fst posting) m) postings document_to_relevance)))"

fun FindAllDocuments_collect ::
  "SearchServer \<Rightarrow> (int \<times> real) list \<Rightarrow> Document list \<Rightarrow> error + Document list" where
  "FindAllDocuments_collect s [] matched_documents = Inr matched_documents"
| "FindAllDocuments_collect s (entry # rest) matched_documents =
     (case map_at (documents s) (fst entry) of
        Inl e \<Rightarrow> Inl e
      | Inr document_data \<Rightarrow>
          FindAllDocuments_collect s rest
            (matched_documents
               @ [\<lparr>doc_id = fst entry, relevance = snd entry, rating = rating_d document_data\<rparr>]))"

definition FindAllDocuments ::
  "SearchServer \<Rightarrow> Query \<Rightarrow> DocumentPredicate \<Rightarrow> error + Document list" where
  "FindAllDocuments s query document_predicate =
     (case FindAllDocuments_plus s document_predicate (plus_words query) [] of
        Inl e \<Rightarrow> Inl e
      | Inr accumulated \<Rightarrow>
          (case FindAllDocuments_minus s (minus_words query) accumulated of
             Inl e \<Rightarrow> Inl e
           | Inr document_to_relevance \<Rightarrow>
               FindAllDocuments_collect s document_to_relevance []))"

text \<open>The comparator that \<^verbatim>\<open>FindTopDocuments\<close> hands to \<^verbatim>\<open>std::sort\<close>.\<close>

definition relevance_rating_less :: "Document \<Rightarrow> Document \<Rightarrow> bool" where
  "relevance_rating_less lhs rhs =
     (if \<bar>relevance lhs - relevance rhs\<bar> < EPSILON then rating lhs > rating rhs
      else relevance lhs > relevance rhs)"

text \<open>
  \<^verbatim>\<open>std::sort\<close> belongs to the C++ standard library, not to the repository. Its contract:
  the range is permuted, and it is ordered by the comparator when the comparator is a
  strict weak ordering. It is modelled by the insertion sort that libstdc++ and the
  Microsoft library run on a short range: each element in turn goes to the front when it
  precedes the first element, and otherwise moves left past the elements it precedes.
\<close>

definition linear_insert :: "('a \<Rightarrow> 'a \<Rightarrow> bool) \<Rightarrow> 'a \<Rightarrow> 'a list \<Rightarrow> 'a list" where
  "linear_insert cmp val sorted_prefix =
     (if sorted_prefix \<noteq> [] \<and> cmp val (hd sorted_prefix) then val # sorted_prefix
      else rev (dropWhile (cmp val) (rev sorted_prefix)) @ val
             # rev (takeWhile (cmp val) (rev sorted_prefix)))"

definition std_sort :: "('a \<Rightarrow> 'a \<Rightarrow> bool) \<Rightarrow> 'a list \<Rightarrow> 'a list" where
  "std_sort cmp xs = foldl (\<lambda>sorted_prefix val. linear_insert cmp val sorted_prefix) [] xs"

definition FindTopDocuments ::
  "SearchServer \<Rightarrow> string \<Rightarrow> DocumentPredicate \<Rightarrow> error + Document list" where
  "FindTopDocuments s raw_query document_predicate =
     (case ParseQuery s raw_query of
        Inl e \<Rightarrow> Inl e
      | Inr query \<Rightarrow>
          (if raw_query = [] then Inl EmptySearchRequest
           else
             (case FindAllDocuments s query document_predicate of
                Inl e \<Rightarrow> Inl e
              | Inr found \<Rightarrow>
                  (let matched_documents = std_sort relevance_rating_less found
                   in if length matched_documents > MAX_RESULT_DOCUMENT_COUNT
                      then Inr (take MAX_RESULT_DOCUMENT_COUNT matched_documents)
                      else Inr matched_documents))))"

definition FindTopDocuments_status ::
  "SearchServer \<Rightarrow> string \<Rightarrow> DocumentStatus \<Rightarrow> error + Document list" where
  "FindTopDocuments_status s raw_query st =
     FindTopDocuments s raw_query (\<lambda>document_id document_status r. document_status = st)"

definition FindTopDocuments_actual :: "SearchServer \<Rightarrow> string \<Rightarrow> error + Document list" where
  "FindTopDocuments_actual s raw_query = FindTopDocuments_status s raw_query ACTUAL"

section \<open>Request queue\<close>

text \<open>
  \<^verbatim>\<open>std::deque\<close> is a list, front first. The reference \<^verbatim>\<open>search_server_\<close> is the
  server argument of each call: the queue sees the server as it is at the time of the
  request. \<^verbatim>\<open>uint64_t\<close> is a 64-bit word, \<^verbatim>\<open>size_t\<close> a natural number.
\<close>

record QueryResult =
  request_time :: "64 word"
  number_of_request_results :: nat
  number_of_no_results :: int

record RequestQueue =
  requests :: "QueryResult list"
  current_request_id :: "64 word"

definition min_in_day :: nat where
  "min_in_day = 1440"

definition RequestQueue_init :: RequestQueue where
  "RequestQueue_init = \<lparr>requests = [], current_request_id = 0\<rparr>"

text \<open>
  \<^verbatim>\<open>int front_request_result = requests_.front().number_of_request_results;\<close> converts a
  \<^verbatim>\<open>size_t\<close> to \<^verbatim>\<open>int\<close>: its low 32 bits, read as a signed number.
\<close>

definition int_of_size_t :: "nat \<Rightarrow> int" where
  "int_of_size_t n = sint (word_of_nat n :: 32 word)"

definition AddFindRequest ::
  "SearchServer \<Rightarrow> string \<Rightarrow> DocumentPredicate \<Rightarrow> RequestQueue
     \<Rightarrow> (error + Document list) \<times> RequestQueue" where
  "AddFindRequest search_server raw_query document_predicate q =
     (case FindTopDocuments search_server raw_query document_predicate of
        Inl e \<Rightarrow> (Inl e, q)
      | Inr search_results \<Rightarrow>
          (let request_id = current_request_id q + 1;
               quantity_of_search_results = length search_results
           in (Inr search_results,
               (if requests q = [] then
                  q\<lparr>current_request_id := request_id,
                    requests :=
                      [\<lparr>request_time = request_id,
                        number_of_request_results = quantity_of_search_results,
                        number_of_no_results = of_bool (quantity_of_search_results = 0)\<rparr>]\<rparr>
                else
                  (let previous_no_resilts_number = number_of_no_results (last (requests q))
                   in if length (requests q) = min_in_day then
                        (let front_request_result =
                               int_of_size_t (number_of_request_results (hd (requests q)))
                         in q\<lparr>current_request_id := request_id,
                              requests :=
                                tl (requests q
                                    @ [\<lparr>request_time = request_id,
                                        number_of_request_results = quantity_of_search_results,
                                        number_of_no_results =
                                          previous_no_resilts_number
                                          + of_bool (quantity_of_search_results = 0)
                                          - of_bool (front_request_result = 0)\<rparr>])\<rparr>)
                      else
                        q\<lparr>current_request_id := request_id,
                          requests :=
                            requests q
                            @ [\<lparr>request_time = request_id,
                                number_of_request_results = quantity_of_search_results,
                                number_of_no_results =
                                  previous_no_resilts_number
                                  + of_bool (quantity_of_search_results = 0)\<rparr>]\<rparr>)))))"

text \<open>
  Modelled from the spec: the body of \<^verbatim>\<open>RequestQueue::GetNoResultRequests\<close> is missing
  from the sources, which only declare it. The spec: ``returns the current running
  zero-result count''. The queue keeps that count in the newest record
  (\<^verbatim>\<open>requests_.back().number_of_no_results\<close>); an empty queue has counted nothing.
\<close>

definition GetNoResultRequests :: "RequestQueue \<Rightarrow> int" where
  "GetNoResultRequests q =
     (if requests q = [] then 0 else number_of_no_results (last (requests q)))"

text \<open>
  A run of tracked requests, each against the server as it is at that time. A request
  whose search throws leaves the queue as it was.
\<close>

fun AddFindRequests ::
  "(SearchServer \<times> string \<times> DocumentPredicate) list \<Rightarrow> RequestQueue
     \<Rightarrow> (error + Document list) list \<times> RequestQueue" where
  "AddFindRequests [] q = ([], q)"
| "AddFindRequests (call # calls) q =
     (let step = AddFindRequest (fst call) (fst (snd call)) (snd (snd call)) q;
          later = AddFindRequests calls (snd step)
      in (fst step # fst later, snd later))"

section \<open>Paginator\<close>

text \<open>
  An iterator is its offset from the beginning of the container.
  \<^verbatim>\<open>static_cast<int>(distance(range_begin, range_end))\<close> keeps the low 32 bits of the
  distance, read as a signed number. The constructor then divides by \<^verbatim>\<open>page_size\<close>
  unchecked; \<^verbatim>\<open>%\<close> and \<^verbatim>\<open>/\<close> truncate toward zero. With \<^verbatim>\<open>page_size == 0\<close>, and with
  \<^verbatim>\<open>INT_MIN % -1\<close>, the behaviour is undefined (the division traps): the model reports a
  fault, which is no exception that a caller could catch.
\<close>

datatype fault = IntegerDivisionByZero | IntegerOverflow

record IteratorRange =
  page_begin :: int
  page_end :: int

record Paginator =
  range_begin :: int
  range_end :: int
  range_size :: int
  pages_count :: int
  pages :: "IteratorRange list"

definition Paginator_step ::
  "int \<Rightarrow> int \<Rightarrow> int \<Rightarrow> int \<Rightarrow> int \<times> IteratorRange list \<Rightarrow> int \<times> IteratorRange list" where
  "Paginator_step n_pages page_size last_iterator page st =
     (if page < n_pages then
        (fst st + page_size,
         snd st @ [\<lparr>page_begin = fst st, page_end = fst st + page_size\<rparr>])
      else (fst st, snd st @ [\<lparr>page_begin = fst st, page_end = last_iterator\<rparr>]))"

definition Paginator_ctor :: "int \<Rightarrow> int \<Rightarrow> int \<Rightarrow> fault + Paginator" where
  "Paginator_ctor first_iterator last_iterator page_size =
     (let n_items = sint (word_of_int (last_iterator - first_iterator) :: 32 word)
      in if page_size = 0 then Inl IntegerDivisionByZero
         else if n_items = - (2 ^ 31) \<and> page_size = - 1 then Inl IntegerOverflow
         else
           (let n_pages = (if n_items smod page_size > 0 then n_items sdiv page_size + 1
                         else n_items sdiv page_size)
            in Inr \<lparr>range_begin = first_iterator, range_end = last_iterator,
                    range_size = n_items, pages_count = n_pages,
                    pages = snd (fold (Paginator_step n_pages page_size last_iterator)
                                   [1..n_pages] (first_iterator, []))\<rparr>))"

text \<open>\<^verbatim>\<open>Paginator::size\<close> returns the page count that the constructor computed.\<close>

definition Paginator_size :: "Paginator \<Rightarrow> int" where
  "Paginator_size p = pages_count p"

text \<open>
  \<^verbatim>\<open>Paginate\<close> takes the page size as a \<^verbatim>\<open>size_t\<close> (64 bits) and passes it on as an
  \<^verbatim>\<open>int\<close>: the low 32 bits, read as a signed number.
\<close>

definition Paginate :: "'a list \<Rightarrow> 64 word \<Rightarrow> fault + Paginator" where
  "Paginate c page_size = Paginator_ctor 0 (int (length c)) (sint (ucast page_size :: 32 word))"

text \<open>
  \<^verbatim>\<open>IteratorRange::size\<close> has no counterpart here: its body calls \<^verbatim>\<open>destination\<close>, a
  name that is declared nowhere, and its return type is \<^verbatim>\<open>Iterator\<close>, so the member does
  not compile once it is used (claim C8). The constructor of \<^verbatim>\<open>Paginator\<close> measures a
  range with \<^verbatim>\<open>distance\<close>; the number of elements of a page is the length of the list
  below.
\<close>

text \<open>The elements that a loop from \<^verbatim>\<open>page.begin()\<close> to \<^verbatim>\<open>page.end()\<close> visits.\<close>

definition page_elements :: "'a list \<Rightarrow> IteratorRange \<Rightarrow> 'a list" where
  "page_elements c page =
     take (nat (page_end page - page_begin page)) (drop (nat (page_begin page)) c)"

section \<open>Vocabulary of the properties\<close>

subsection \<open>Engine states\<close>

text \<open>
  An engine state is what the constructor returns, followed by any sequence of
  \<^verbatim>\<open>AddDocument\<close> calls; a call that throws leaves the server as it was.
\<close>

definition AddDocuments ::
  "(int \<times> string \<times> DocumentStatus \<times> int list) list \<Rightarrow> SearchServer \<Rightarrow> SearchServer" where
  "AddDocuments calls s =
     fold (\<lambda>call s'. snd (AddDocument (fst call) (fst (snd call)) (fst (snd (snd call)))
                            (snd (snd (snd call))) s')) calls s"

definition engine ::
  "string list \<Rightarrow> (int \<times> string \<times> DocumentStatus \<times> int list) list \<Rightarrow> error + SearchServer" where
  "engine stop_words_arg calls =
     (case SearchServer_of_container stop_words_arg of
        Inl e \<Rightarrow> Inl e
      | Inr s \<Rightarrow> Inr (AddDocuments calls s))"

text \<open>
  What every engine state satisfies: the stop words hold no control character, the
  insertion sequence is as long as the document store, and each postings list ascends
  strictly by document id and names stored documents only.
\<close>

definition postings_ok ::
  "(int \<times> DocumentData) list \<Rightarrow> (string \<times> (int \<times> real) list) \<Rightarrow> bool" where
  "postings_ok docs e =
     (sorted_wrt (<) (map fst (snd e))
      \<and> list_all (\<lambda>posting. map_count docs (fst posting)) (snd e))"

definition server_inv :: "SearchServer \<Rightarrow> bool" where
  "server_inv s =
     (list_all IsValidWord (stop_words s)
      \<and> length (document_id_sequence s) = length (documents s)
      \<and> list_all (postings_ok (documents s)) (word_to_document_freqs s))"

subsection \<open>Matching and relevance\<close>

text \<open>A word matches a document when the postings of the word hold the document id.\<close>

definition word_in_document :: "SearchServer \<Rightarrow> string \<Rightarrow> int \<Rightarrow> bool" where
  "word_in_document s word document_id =
     (case map_of (word_to_document_freqs s) word of
        None \<Rightarrow> False
      | Some postings \<Rightarrow> map_count postings document_id)"

text \<open>
  The term frequency that the index stores for a word and a document, zero when it
  stores none; the inverse document frequency of a word, the logarithm of the document
  count over the number of postings of the word; the predicate applied to a stored
  document.
\<close>

definition term_frequency :: "SearchServer \<Rightarrow> string \<Rightarrow> int \<Rightarrow> real" where
  "term_frequency s word document_id =
     map_index (map_index (word_to_document_freqs s) word []) document_id 0"

definition inverse_document_frequency :: "SearchServer \<Rightarrow> string \<Rightarrow> real" where
  "inverse_document_frequency s word =
     ln (real_of_int (GetDocumentCount s)
         / real (length (map_index (word_to_document_freqs s) word [])))"

definition predicate_holds :: "SearchServer \<Rightarrow> DocumentPredicate \<Rightarrow> int \<Rightarrow> bool" where
  "predicate_holds s document_predicate document_id =
     (case map_of (documents s) document_id of
        None \<Rightarrow> False
      | Some document_data \<Rightarrow>
          document_predicate document_id (status document_data) (rating_d document_data))"

definition tf_idf_sum :: "SearchServer \<Rightarrow> string list \<Rightarrow> int \<Rightarrow> real" where
  "tf_idf_sum s ws document_id =
     (\<Sum>word \<leftarrow> filter (map_count (word_to_document_freqs s)) ws.
        term_frequency s word document_id * inverse_document_frequency s word)"

text \<open>
  The loop invariant of the first phase of \<^verbatim>\<open>FindAllDocuments\<close>, after the plus words
  \<open>ws\<close>; and the record that the last phase builds from an entry of the relevance map.
\<close>

definition accumulated ::
  "SearchServer \<Rightarrow> DocumentPredicate \<Rightarrow> string list \<Rightarrow> (int \<times> real) list \<Rightarrow> bool" where
  "accumulated s p ws acc =
     (\<forall>k. map_of acc k =
        (if predicate_holds s p k \<and> (\<exists>word \<in> set ws. word_in_document s word k)
         then Some (tf_idf_sum s ws k) else None))"

definition to_document :: "SearchServer \<Rightarrow> int \<times> real \<Rightarrow> Document" where
  "to_document s entry =
     \<lparr>doc_id = fst entry, relevance = snd entry,
      rating = rating_d (the (map_of (documents s) (fst entry)))\<rparr>"

subsection \<open>The order of the results\<close>

text \<open>
  The order in the words of the specification: two documents whose relevance differs by
  less than \<open>EPSILON\<close> are tied and go by rating, descending; otherwise the greater
  relevance goes first. A list is ranked when each of its elements stands in this
  relation to every later one.
\<close>

definition tied :: "Document \<Rightarrow> Document \<Rightarrow> bool" where
  "tied a b = (\<bar>relevance a - relevance b\<bar> < EPSILON)"

definition ranked_before :: "Document \<Rightarrow> Document \<Rightarrow> bool" where
  "ranked_before a b = (if tied a b then rating a \<ge> rating b else relevance a > relevance b)"

definition ranked :: "Document list \<Rightarrow> bool" where
  "ranked ds = sorted_wrt ranked_before ds"

definition ties_transitive :: "Document list \<Rightarrow> bool" where
  "ties_transitive ds =
     list_all (\<lambda>a. list_all (\<lambda>b. list_all (\<lambda>c. tied a b \<and> tied b c \<longrightarrow> tied a c) ds) ds) ds"

subsection \<open>Histories of the request queue\<close>

text \<open>
  The sizes of the result lists of the requests of a run that succeeded, oldest first;
  the part of such a history that a full queue still covers; the number of empty results
  in it; and what the queue satisfies after a run with that history.
\<close>

fun result_sizes :: "(error + Document list) list \<Rightarrow> nat list" where
  "result_sizes [] = []"
| "result_sizes (Inl e # outs) = result_sizes outs"
| "result_sizes (Inr ds # outs) = length ds # result_sizes outs"

definition window :: "nat list \<Rightarrow> nat list" where
  "window hs = drop (length hs - min_in_day) hs"

definition no_result_count :: "nat list \<Rightarrow> int" where
  "no_result_count hs = int (length (filter (\<lambda>k. k = 0) hs))"

definition queue_inv :: "nat list \<Rightarrow> RequestQueue \<Rightarrow> bool" where
  "queue_inv hs q =
     (map number_of_request_results (requests q) = window hs
      \<and> map request_time (requests q)
          = map (\<lambda>i. word_of_nat (Suc i)) [length hs - length (window hs) ..< length hs]
      \<and> GetNoResultRequests q = no_result_count (window hs)
      \<and> current_request_id q = word_of_nat (length hs)
      \<and> list_all (\<lambda>k. k \<le> MAX_RESULT_DOCUMENT_COUNT) hs)"

subsection \<open>Concrete servers\<close>

text \<open>
  The corpus of the example in the specification, the server it builds, and a run of
  three requests against it: one without result, one with one result, one that throws.
\<close>

definition demo_calls :: "(int \<times> string \<times> DocumentStatus \<times> int list) list" where
  "demo_calls =
     [(0, ''a grey hound with black ears'', ACTUAL, [1, 3, 2]),
      (2, ''white red square long'', ACTUAL, [3]),
      (3, ''white cat long furry tail found near red square'', ACTUAL, [1, 2])]"

definition demo_server :: SearchServer where
  "demo_server =
     \<lparr>stop_words = [''a'', ''is'', ''near'', ''the'', ''with''],
      word_to_document_freqs =
        [(''black'', [(0, 1 / 4)]), (''cat'', [(3, 1 / 8)]),
         (''ears'', [(0, 1 / 4)]), (''found'', [(3, 1 / 8)]),
         (''furry'', [(3, 1 / 8)]), (''grey'', [(0, 1 / 4)]),
         (''hound'', [(0, 1 / 4)]), (''long'', [(2, 1 / 4), (3, 1 / 8)]),
         (''red'', [(2, 1 / 4), (3, 1 / 8)]),
         (''square'', [(2, 1 / 4), (3, 1 / 8)]), (''tail'', [(3, 1 / 8)]),
         (''white'', [(2, 1 / 4), (3, 1 / 8)])],
      documents =
        [(0, \<lparr>rating_d = 2, status = ACTUAL\<rparr>),
         (2, \<lparr>rating_d = 3, status = ACTUAL\<rparr>),
         (3, \<lparr>rating_d = 1, status = ACTUAL\<rparr>)],
      document_id_sequence = [0, 2, 3]\<rparr>"

definition demo_requests :: "(SearchServer \<times> string \<times> DocumentPredicate) list" where
  "demo_requests =
     [(demo_server, ''zebra'', \<lambda>document_id st r. True),
      (demo_server, ''black cat -white'', \<lambda>document_id st r. True),
      (demo_server, [], \<lambda>document_id st r. True)]"

text \<open>
  A corpus on which the comparator of \<^verbatim>\<open>FindTopDocuments\<close> is cyclic: three documents of
  1002, 1001 and 1000 words that hold the word \<open>x\<close> once, with the ratings 3, 2 and 1, and
  three documents without it; and the three documents that the query \<open>x\<close> finds there.
\<close>

definition long_document :: "nat \<Rightarrow> string" where
  "long_document n = concat (replicate n ''y '') @ ''x''"

definition empty_server :: SearchServer where
  "empty_server =
     \<lparr>stop_words = [], word_to_document_freqs = [], documents = [], document_id_sequence = []\<rparr>"

definition cycle_calls :: "(int \<times> string \<times> DocumentStatus \<times> int list) list" where
  "cycle_calls =
     [(1, long_document 1001, ACTUAL, [3]),
      (2, long_document 1000, ACTUAL, [2]),
      (3, long_document 999, ACTUAL, [1]),
      (4, ''z'', ACTUAL, []),
      (5, ''z'', ACTUAL, []),
      (6, ''z'', ACTUAL, [])]"

definition cycle_server :: SearchServer where
  "cycle_server = AddDocuments cycle_calls empty_server"

definition cycle_a :: Document where
  "cycle_a = \<lparr>doc_id = 1, relevance = ln 2 / 1002, rating = 3\<rparr>"

definition cycle_b :: Document where
  "cycle_b = \<lparr>doc_id = 2, relevance = ln 2 / 1001, rating = 2\<rparr>"

definition cycle_c :: Document where
  "cycle_c = \<lparr>doc_id = 3, relevance = ln 2 / 1000, rating = 1\<rparr>"

section \<open>Evaluation and container lemmas\<close>

lemmas container_eval =
  map_count_def map_at_def map_index_def map_emplace_def map_erase_def set_insert_def
  front_char_def

lemmas server_eval =
  container_eval SplitIntoWords_def IsValidWord_def IsStopWord_def
  SplitIntoWordsNoStop_def ComputeAverageRating_def signed_divide_int_def add_word_freq_def
  AddDocument_def Let_def

lemmas query_eval =
  container_eval SplitIntoWords_def IsValidWord_def IsStopWord_def ParseQueryWord_def
  ParseQuery_def Let_def

lemma map_at_Inr_iff: "map_at m k = Inr v \<longleftrightarrow> map_of m k = Some v"
  by (auto simp: map_at_def split: option.splits)

lemma map_at_Inl_iff: "map_at m k = Inl e \<longleftrightarrow> map_of m k = None \<and> e = MapAtOutOfRange"
  by (auto simp: map_at_def split: option.splits)

lemma SplitIntoWordsNoStop_loop_Inl:
  "SplitIntoWordsNoStop_loop s ws acc = Inl e \<longleftrightarrow>
     \<not> list_all IsValidWord ws \<and> e = InvalidDocumentCharacters"
  by (induction ws arbitrary: acc) auto

lemma SplitIntoWordsNoStop_loop_Inr:
  "list_all IsValidWord ws \<Longrightarrow>
     SplitIntoWordsNoStop_loop s ws acc = Inr (acc @ filter (\<lambda>w. \<not> IsStopWord s w) ws)"
  by (induction ws arbitrary: acc) auto

lemma SplitIntoWordsNoStop_loop_invalid:
  "\<not> list_all IsValidWord ws \<Longrightarrow>
     SplitIntoWordsNoStop_loop s ws acc = Inl InvalidDocumentCharacters"
  by (induction ws arbitrary: acc) auto

lemma SplitIntoWordsNoStop_cases:
  "SplitIntoWordsNoStop s text =
     (if list_all IsValidWord (SplitIntoWords text)
      then Inr (filter (\<lambda>w. \<not> IsStopWord s w) (SplitIntoWords text))
      else Inl InvalidDocumentCharacters)"
  by (simp add: SplitIntoWordsNoStop_def SplitIntoWordsNoStop_loop_Inr
      SplitIntoWordsNoStop_loop_invalid)



lemma demo_engine:
  "engine [''a'', ''with'', ''is'', ''near'', ''the''] demo_calls = Inr demo_server"
  by (simp add: engine_def SearchServer_of_container_def MakeUniqueNonEmptyStrings_def
      AddDocuments_def demo_calls_def demo_server_def server_eval)

section \<open>Adding documents\<close>

text \<open>
  Claim C4. \<^verbatim>\<open>AddDocument\<close> fails exactly when the id is negative, the id is already
  stored, or a token of the text holds a control character; whenever it fails, the
  server (inverted index, document store and with it the document count, insertion
  sequence) is the one before the call.
\<close>

theorem AddDocument_failure_leaves_state:
  "((\<exists>e. fst (AddDocument document_id document st ratings s) = Inl e) \<longleftrightarrow>
      (document_id < 0 \<or> map_count (documents s) document_id
       \<or> \<not> list_all IsValidWord (SplitIntoWords document)))
   \<and> (\<forall>e. fst (AddDocument document_id document st ratings s) = Inl e \<longrightarrow>
        snd (AddDocument document_id document st ratings s) = s)"
  by (simp add: AddDocument_def SplitIntoWordsNoStop_cases Let_def)

theorem AddDocument_failure_leaves_state_witness:
  "fst (AddDocument 2 ''white dog'' ACTUAL [5] demo_server) = Inl DocumentIdExists
   \<and> fst (AddDocument (- 1) ''white dog'' ACTUAL [5] demo_server) = Inl NegativeDocumentId
   \<and> fst (AddDocument 4 [CHR ''d'', CHR 0x12, CHR ''g''] ACTUAL [5] demo_server)
       = Inl InvalidDocumentCharacters
   \<and> snd (AddDocument 2 ''white dog'' ACTUAL [5] demo_server) = demo_server
   \<and> snd (AddDocument (- 1) ''white dog'' ACTUAL [5] demo_server) = demo_server
   \<and> snd (AddDocument 4 [CHR ''d'', CHR 0x12, CHR ''g''] ACTUAL [5] demo_server) = demo_server"
proof -
  have a: "fst (AddDocument 2 ''white dog'' ACTUAL [5] demo_server) = Inl DocumentIdExists"
    by (simp add: demo_server_def server_eval)
  have b: "fst (AddDocument (- 1) ''white dog'' ACTUAL [5] demo_server) = Inl NegativeDocumentId"
    by (simp add: AddDocument_def)
  have c: "fst (AddDocument 4 [CHR ''d'', CHR 0x12, CHR ''g''] ACTUAL [5] demo_server)
             = Inl InvalidDocumentCharacters"
    by (simp add: demo_server_def server_eval)
  from a b c
    AddDocument_failure_leaves_state [of 2 "''white dog''" ACTUAL "[5]" demo_server]
    AddDocument_failure_leaves_state [of "- 1" "''white dog''" ACTUAL "[5]" demo_server]
    AddDocument_failure_leaves_state [of 4 "[CHR ''d'', CHR 0x12, CHR ''g'']" ACTUAL "[5]" demo_server]
  show ?thesis by blast
qed

section \<open>Matching a document\<close>







section \<open>Minus-word syntax\<close>

lemma ParseQueryWord_double_minus:
  "IsValidWord (CHR ''-'' # CHR ''-'' # rest) \<Longrightarrow>
     ParseQueryWord s (CHR ''-'' # CHR ''-'' # rest) = Inl DoubleMinus"
  by (simp add: ParseQueryWord_def front_char_def)

lemma ParseQueryWord_bare_minus: "ParseQueryWord s ''-'' = Inl MinusWithoutText"
proof -
  have "IsValidWord ''-''"
    by (simp add: IsValidWord_def)
  then show ?thesis
    by (simp add: ParseQueryWord_def front_char_def)
qed

lemma ParseQueryWord_malformed:
  "token = ''-'' \<or> (\<exists>rest. token = CHR ''-'' # CHR ''-'' # rest) \<Longrightarrow>
     \<exists>e. ParseQueryWord s token = Inl e"
  by (auto simp: ParseQueryWord_def front_char_def)

lemma ParseQuery_loop_rejects:
  "token \<in> set ws \<Longrightarrow> ParseQueryWord s token = Inl e \<Longrightarrow>
     \<exists>e'. ParseQuery_loop s ws q = Inl e'"
proof (induction ws arbitrary: q)
  case Nil
  then show ?case by simp
next
  case (Cons w ws)
  show ?case
  proof (cases "ParseQueryWord s w")
    case (Inl e0)
    then show ?thesis by simp
  next
    case (Inr qw)
    with Cons.prems have "token \<in> set ws" by auto
    from Cons.IH [OF this Cons.prems(2)] Inr show ?thesis by simp
  qed
qed

lemma ParseQuery_loop_first_rejected:
  "\<forall>w \<in> set before. \<exists>qw. ParseQueryWord s w = Inr qw \<Longrightarrow>
     ParseQueryWord s token = Inl e \<Longrightarrow>
     ParseQuery_loop s (before @ token # after) q = Inl e"
  by (induction before arbitrary: q) auto

text \<open>
  Claim C6, amended. A query with a token \<open>-\<close> or a token that begins with \<open>--\<close> fails
  to parse. The tokens are parsed from left to right and the first \<^verbatim>\<open>throw\<close> ends the
  parse: the failure is the double-minus one (respectively the one of a minus without
  text) when the token holds no control character and every token before it parses.
\<close>

theorem ParseQuery_minus_syntax:
  "(token \<in> set (SplitIntoWords raw_query)
      \<and> (token = ''-'' \<or> (\<exists>rest. token = CHR ''-'' # CHR ''-'' # rest))
      \<longrightarrow> (\<exists>e. ParseQuery s raw_query = Inl e))
   \<and> (SplitIntoWords raw_query = before @ token # after
        \<and> (\<forall>w \<in> set before. \<exists>qw. ParseQueryWord s w = Inr qw) \<and> IsValidWord token
      \<longrightarrow> ((\<exists>rest. token = CHR ''-'' # CHR ''-'' # rest)
             \<longrightarrow> ParseQuery s raw_query = Inl DoubleMinus)
          \<and> (token = ''-'' \<longrightarrow> ParseQuery s raw_query = Inl MinusWithoutText))"
proof (intro conjI impI)
  assume a: "token \<in> set (SplitIntoWords raw_query)
      \<and> (token = ''-'' \<or> (\<exists>rest. token = CHR ''-'' # CHR ''-'' # rest))"
  then obtain e where "ParseQueryWord s token = Inl e"
    using ParseQueryWord_malformed [of token s] by blast
  from ParseQuery_loop_rejects [OF _ this] a
  show "\<exists>e. ParseQuery s raw_query = Inl e"
    unfolding ParseQuery_def by blast
next
  assume a: "SplitIntoWords raw_query = before @ token # after
        \<and> (\<forall>w \<in> set before. \<exists>qw. ParseQueryWord s w = Inr qw) \<and> IsValidWord token"
    and "\<exists>rest. token = CHR ''-'' # CHR ''-'' # rest"
  then have "ParseQueryWord s token = Inl DoubleMinus"
    using ParseQueryWord_double_minus by blast
  from ParseQuery_loop_first_rejected [OF _ this] a
  show "ParseQuery s raw_query = Inl DoubleMinus"
    unfolding ParseQuery_def by simp
next
  assume a: "SplitIntoWords raw_query = before @ token # after
        \<and> (\<forall>w \<in> set before. \<exists>qw. ParseQueryWord s w = Inr qw) \<and> IsValidWord token"
    and "token = ''-''"
  then have "ParseQueryWord s token = Inl MinusWithoutText"
    using ParseQueryWord_bare_minus by blast
  from ParseQuery_loop_first_rejected [OF _ this] a
  show "ParseQuery s raw_query = Inl MinusWithoutText"
    unfolding ParseQuery_def by simp
qed

theorem ParseQuery_minus_syntax_witness:
  "ParseQuery demo_server ''cat --tail'' = Inl DoubleMinus
   \<and> ParseQuery demo_server ''cat -'' = Inl MinusWithoutText"
proof -
  have t1: "SplitIntoWords ''cat --tail'' = [''cat''] @ ''--tail'' # []"
    and t2: "SplitIntoWords ''cat -'' = [''cat''] @ ''-'' # []"
    by (simp_all add: SplitIntoWords_def)
  have ok: "\<forall>w \<in> set [''cat'']. \<exists>qw. ParseQueryWord demo_server w = Inr qw"
    by (simp add: ParseQueryWord_def IsValidWord_def front_char_def)
  have v1: "IsValidWord ''--tail''" and v2: "IsValidWord ''-''"
    by (simp_all add: IsValidWord_def)
  have r: "\<exists>rest. ''--tail'' = CHR ''-'' # CHR ''-'' # rest"
    by simp
  from ParseQuery_minus_syntax [of "''--tail''" "''cat --tail''" demo_server "[''cat'']" "[]"]
    t1 ok v1 r
  have "ParseQuery demo_server ''cat --tail'' = Inl DoubleMinus"
    by blast
  moreover
  from ParseQuery_minus_syntax [of "''-''" "''cat -''" demo_server "[''cat'']" "[]"]
    t2 ok v2
  have "ParseQuery demo_server ''cat -'' = Inl MinusWithoutText"
    by blast
  ultimately show ?thesis by blast
qed

text \<open>
  The claim as stated fails: the query \<open>- --tail\<close> holds a token that begins with \<open>--\<close>,
  and the parse ends at the first token with the other condition.
\<close>

theorem ParseQuery_minus_syntax_counterexample:
  "''--tail'' \<in> set (SplitIntoWords ''- --tail'')
   \<and> ParseQuery demo_server ''- --tail'' = Inl MinusWithoutText
   \<and> ParseQuery demo_server ''- --tail'' \<noteq> Inl DoubleMinus"
  by (simp add: demo_server_def query_eval)

section \<open>Page sizes\<close>

text \<open>
  The example of the specification: ten elements in pages of three, and the elements of
  each page.
\<close>

lemma Paginate_example:
  "Paginate [1, 2, 3, 4, 5, 6, 7, 8, 9, 10 :: int] 3 =
     Inr \<lparr>range_begin = 0, range_end = 10, range_size = 10, pages_count = 4,
          pages = [\<lparr>page_begin = 0, page_end = 3\<rparr>, \<lparr>page_begin = 3, page_end = 6\<rparr>,
                   \<lparr>page_begin = 6, page_end = 9\<rparr>, \<lparr>page_begin = 9, page_end = 10\<rparr>]\<rparr>"
  "map (page_elements [1, 2, 3, 4, 5, 6, 7, 8, 9, 10 :: int])
     [\<lparr>page_begin = 0, page_end = 3\<rparr>, \<lparr>page_begin = 3, page_end = 6\<rparr>,
      \<lparr>page_begin = 6, page_end = 9\<rparr>, \<lparr>page_begin = 9, page_end = 10\<rparr>]
   = [1, 2, 3] # [4, 5, 6] # [7, 8, 9] # [10] # []"
proof -
  have "sint (ucast (3 :: 64 word) :: 32 word) = 3"
    by simp
  moreover have "sint (10 :: 32 word) = 10"
    by simp
  moreover have "[1..4] = [1, 2, 3, 4 :: int]"
    by (simp add: upto.simps)
  ultimately show "Paginate [1, 2, 3, 4, 5, 6, 7, 8, 9, 10 :: int] 3 =
     Inr \<lparr>range_begin = 0, range_end = 10, range_size = 10, pages_count = 4,
          pages = [\<lparr>page_begin = 0, page_end = 3\<rparr>, \<lparr>page_begin = 3, page_end = 6\<rparr>,
                   \<lparr>page_begin = 6, page_end = 9\<rparr>, \<lparr>page_begin = 9, page_end = 10\<rparr>]\<rparr>"
    by (simp add: Paginate_def Paginator_ctor_def Paginator_step_def signed_modulo_int_def
        signed_divide_int_def)
  show "map (page_elements [1, 2, 3, 4, 5, 6, 7, 8, 9, 10 :: int])
     [\<lparr>page_begin = 0, page_end = 3\<rparr>, \<lparr>page_begin = 3, page_end = 6\<rparr>,
      \<lparr>page_begin = 6, page_end = 9\<rparr>, \<lparr>page_begin = 9, page_end = 10\<rparr>]
   = [1, 2, 3] # [4, 5, 6] # [7, 8, 9] # [10] # []"
    by (simp add: page_elements_def numeral_eq_Suc)
qed

text \<open>
  Claim C7. The claim asks that \<^verbatim>\<open>Paginate\<close> fail with an invalid-argument error when the
  page size is not positive. The code checks no page size. With the page size 0, the one
  non-positive value of a \<^verbatim>\<open>size_t\<close>, the constructor computes
  \<^verbatim>\<open>range_size_ % page_size\<close> first: an integer division by zero, for every sequence, and
  no exception.
\<close>

theorem Paginate_zero_page_size: "Paginate c 0 = Inl IntegerDivisionByZero"
  by (simp add: Paginate_def Paginator_ctor_def)

text \<open>
  A negative argument reaches the constructor through the conversions to \<^verbatim>\<open>size_t\<close> and
  back to \<^verbatim>\<open>int\<close>. The constructor throws nothing there either: with \<open>-1\<close> and three
  elements it builds no page and reports \<open>-3\<close> pages.
\<close>

lemma Paginate_minus_one:
  "Paginate [1, 2, 3 :: int] (- 1) =
     Inr \<lparr>range_begin = 0, range_end = 3, range_size = 3, pages_count = - 3, pages = []\<rparr>"
  "Paginator_size
     \<lparr>range_begin = 0, range_end = 3, range_size = 3, pages_count = - 3, pages = []\<rparr> = - 3"
proof -
  have "sint (ucast (- 1 :: 64 word) :: 32 word) = - 1"
    by code_simp
  moreover have "sint (3 :: 32 word) = 3"
    by simp
  ultimately show "Paginate [1, 2, 3 :: int] (- 1) =
     Inr \<lparr>range_begin = 0, range_end = 3, range_size = 3, pages_count = - 3, pages = []\<rparr>"
    by (simp add: Paginate_def Paginator_ctor_def signed_modulo_int_def signed_divide_int_def)
  show "Paginator_size
     \<lparr>range_begin = 0, range_end = 3, range_size = 3, pages_count = - 3, pages = []\<rparr> = - 3"
    by (simp add: Paginator_size_def)
qed

text \<open>
  The range size is narrowed as well: a range of \<open>2\<^sup>3\<^sup>1\<close> elements has the size \<^verbatim>\<open>INT_MIN\<close>,
  and with the page size \<open>-1\<close> the remainder overflows.
\<close>

lemma Paginator_ctor_overflow: "Paginator_ctor 0 (2 ^ 31) (- 1) = Inl IntegerOverflow"
proof -
  have "sint (word_of_int (2 ^ 31) :: 32 word) = - (2 ^ 31)"
    by code_simp
  then show ?thesis
    by (simp add: Paginator_ctor_def)
qed

section \<open>Engine states\<close>

lemma map_of_map_put: "map_of (map_put k v m) = (map_of m)(k \<mapsto> v)"
  by (induction m) (auto simp: fun_eq_iff)

lemma map_count_map_put: "map_count (map_put k v m) k' \<longleftrightarrow> k' = k \<or> map_count m k'"
  by (simp add: map_count_def map_of_map_put)

lemma set_map_put: "set (map_put k v m) \<subseteq> insert (k, v) (set m)"
  by (induction m) auto

lemma keys_map_put: "fst ` set (map_put k v m) = insert k (fst ` set m)"
  by (induction m) auto

lemma sorted_map_put:
  "sorted_wrt (<) (map fst m) \<Longrightarrow> sorted_wrt (<) (map fst (map_put k v m))"
proof (induction m)
  case Nil
  then show ?case by simp
next
  case (Cons e m)
  have "fst ` set (map_put k v m) = insert k (fst ` set m)"
    by (rule keys_map_put)
  with Cons show ?case by (auto simp: image_iff)
qed

lemma length_map_put_fresh: "map_of m k = None \<Longrightarrow> length (map_put k v m) = Suc (length m)"
  by (induction m) (auto split: if_splits)

lemma map_put_twice: "map_put k v (map_put k v' m) = map_put k v m"
  by (induction m) auto

lemma insert_stop_words_valid:
  "insert_stop_words ws acc = Inr sw \<Longrightarrow> list_all IsValidWord acc \<Longrightarrow> list_all IsValidWord sw"
proof (induction ws arbitrary: acc)
  case Nil
  then show ?case by simp
next
  case (Cons w ws)
  from Cons.prems have v: "IsValidWord w"
    and r: "insert_stop_words ws (set_insert w acc) = Inr sw"
    by (auto split: if_splits)
  from v Cons.prems(2) have "list_all IsValidWord (set_insert w acc)"
    by (auto simp: set_insert_def list_all_iff set_insort_key)
  from Cons.IH [OF r this] show ?case .
qed

lemma SearchServer_of_container_inv:
  "SearchServer_of_container stop_words_arg = Inr s \<Longrightarrow> server_inv s"
  by (auto simp: SearchServer_of_container_def server_inv_def split: sum.splits
      dest: insert_stop_words_valid)

lemma AddDocument_fails_iff:
  "(\<exists>e. fst (AddDocument document_id document st ratings s) = Inl e) \<longleftrightarrow>
     (document_id < 0 \<or> map_count (documents s) document_id
      \<or> \<not> list_all IsValidWord (SplitIntoWords document))"
  by (simp add: AddDocument_def SplitIntoWordsNoStop_cases Let_def)

lemma AddDocument_failed_state:
  "fst (AddDocument document_id document st ratings s) = Inl e \<Longrightarrow>
     snd (AddDocument document_id document st ratings s) = s"
  by (simp add: AddDocument_def SplitIntoWordsNoStop_cases Let_def split: if_splits)

lemma AddDocument_success:
  assumes "0 \<le> document_id" and "\<not> map_count (documents s) document_id"
    and "list_all IsValidWord (SplitIntoWords document)"
  shows "AddDocument document_id document st ratings s =
           (Inr (),
            s\<lparr>word_to_document_freqs :=
                 fold (add_word_freq document_id
                         (1 / real (length (filter (\<lambda>w. \<not> IsStopWord s w) (SplitIntoWords document)))))
                   (filter (\<lambda>w. \<not> IsStopWord s w) (SplitIntoWords document))
                   (word_to_document_freqs s),
               documents :=
                 map_put document_id \<lparr>rating_d = ComputeAverageRating ratings, status = st\<rparr>
                   (documents s),
               document_id_sequence := document_id_sequence s @ [document_id]\<rparr>)"
  using assms
  by (simp add: AddDocument_def SplitIntoWordsNoStop_cases Let_def map_emplace_def)

lemma add_word_freq_ok:
  assumes "list_all (postings_ok docs) freqs" and "map_count docs document_id"
  shows "list_all (postings_ok docs) (add_word_freq document_id x word freqs)"
proof -
  define postings where "postings = map_index freqs word []"
  have p: "postings_ok docs (word, postings)"
  proof (cases "map_of freqs word")
    case None
    then show ?thesis by (simp add: postings_def map_index_def postings_ok_def)
  next
    case (Some p)
    then have "(word, p) \<in> set freqs" by (rule map_of_SomeD)
    with assms(1) Some show ?thesis
      by (auto simp: postings_def map_index_def list_all_iff postings_ok_def)
  qed
  have "postings_ok docs (word, map_put document_id (map_index postings document_id 0 + x) postings)"
    using p assms(2) set_map_put [of document_id "map_index postings document_id 0 + x" postings]
    by (auto simp: postings_ok_def sorted_map_put list_all_iff)
  then show ?thesis
    using assms(1)
      set_map_put [of word "map_put document_id (map_index postings document_id 0 + x) postings" freqs]
    by (auto simp: add_word_freq_def Let_def postings_def [symmetric] list_all_iff)
qed

lemma fold_add_word_freq_ok:
  "list_all (postings_ok docs) freqs \<Longrightarrow> map_count docs document_id \<Longrightarrow>
     list_all (postings_ok docs) (fold (add_word_freq document_id x) ws freqs)"
  by (induction ws arbitrary: freqs) (auto simp: add_word_freq_ok)

lemma postings_ok_mono:
  "postings_ok docs e \<Longrightarrow> postings_ok (map_put k v docs) e"
  by (auto simp: postings_ok_def list_all_iff map_count_map_put)

lemma AddDocument_inv:
  assumes "server_inv s"
  shows "server_inv (snd (AddDocument document_id document st ratings s))"
proof (cases "fst (AddDocument document_id document st ratings s)")
  case (Inl e)
  with AddDocument_failed_state [of document_id document st ratings s] assms
  show ?thesis by simp
next
  case (Inr u)
  with AddDocument_fails_iff [of document_id document st ratings s]
  have c: "0 \<le> document_id" "\<not> map_count (documents s) document_id"
    "list_all IsValidWord (SplitIntoWords document)"
    by auto
  let ?d = "\<lparr>rating_d = ComputeAverageRating ratings, status = st\<rparr>"
  from assms have "list_all (postings_ok (documents s)) (word_to_document_freqs s)"
    by (simp add: server_inv_def)
  then have "list_all (postings_ok (map_put document_id ?d (documents s))) (word_to_document_freqs s)"
    by (auto simp: list_all_iff postings_ok_mono)
  then have "list_all (postings_ok (map_put document_id ?d (documents s)))
     (fold (add_word_freq document_id
                         (1 / real (length (filter (\<lambda>w. \<not> IsStopWord s w) (SplitIntoWords document)))))
                   (filter (\<lambda>w. \<not> IsStopWord s w) (SplitIntoWords document))
                   (word_to_document_freqs s))"
    by (rule fold_add_word_freq_ok) (simp add: map_count_map_put)
  moreover have "length (map_put document_id ?d (documents s)) = Suc (length (documents s))"
    using c(2) by (simp add: length_map_put_fresh map_count_def)
  ultimately show ?thesis
    using assms by (simp add: AddDocument_success [OF c] server_inv_def)
qed

lemma AddDocuments_inv: "server_inv s \<Longrightarrow> server_inv (AddDocuments calls s)"
  unfolding AddDocuments_def
  by (induction calls arbitrary: s) (auto simp: AddDocument_inv)

lemma engine_inv: "engine stop_words_arg calls = Inr s \<Longrightarrow> server_inv s"
  by (auto simp: engine_def split: sum.splits
      intro: AddDocuments_inv SearchServer_of_container_inv)

text \<open>
  Claim C10. On an engine state, \<^verbatim>\<open>AddDocument\<close> with a fresh non-negative id and a text
  whose tokens (if any) are all stop words succeeds: the document count grows by one,
  the id is appended to the insertion sequence and \<^verbatim>\<open>GetDocumentId\<close> returns it at the
  new last position, and the inverted index is untouched.
\<close>

theorem AddDocument_without_words:
  assumes "engine stop_words_arg calls = Inr s"
    and "0 \<le> document_id" and "\<not> map_count (documents s) document_id"
    and "list_all (IsStopWord s) (SplitIntoWords document)"
  shows "fst (AddDocument document_id document st ratings s) = Inr ()
    \<and> GetDocumentCount (snd (AddDocument document_id document st ratings s))
        = GetDocumentCount s + 1
    \<and> document_id_sequence (snd (AddDocument document_id document st ratings s))
        = document_id_sequence s @ [document_id]
    \<and> GetDocumentId (snd (AddDocument document_id document st ratings s)) (GetDocumentCount s)
        = Inr document_id
    \<and> word_to_document_freqs (snd (AddDocument document_id document st ratings s))
        = word_to_document_freqs s"
proof -
  from assms(1) have inv: "server_inv s" by (rule engine_inv)
  then have "list_all IsValidWord (stop_words s)"
    and len: "length (document_id_sequence s) = length (documents s)"
    by (simp_all add: server_inv_def)
  with assms(4) have v: "list_all IsValidWord (SplitIntoWords document)"
    by (auto simp: list_all_iff IsStopWord_def)
  from assms(4) have e: "filter (\<lambda>w. \<not> IsStopWord s w) (SplitIntoWords document) = []"
    by (auto simp: list_all_iff filter_empty_conv)
  have l: "length (map_put document_id \<lparr>rating_d = ComputeAverageRating ratings, status = st\<rparr>
             (documents s)) = Suc (length (documents s))"
    using assms(3) by (simp add: length_map_put_fresh map_count_def)
  show ?thesis
    by (simp add: AddDocument_success [OF assms(2,3) v] e GetDocumentCount_def GetDocumentId_def
        l len nth_append)
qed

theorem AddDocument_without_words_witness:
  "fst (AddDocument 5 ''a with  the'' BANNED [4] demo_server) = Inr ()
   \<and> GetDocumentCount (snd (AddDocument 5 ''a with  the'' BANNED [4] demo_server)) = 4
   \<and> GetDocumentId (snd (AddDocument 5 ''a with  the'' BANNED [4] demo_server)) 3 = Inr 5
   \<and> GetDocumentId (snd (AddDocument 7 '''' ACTUAL [] demo_server)) 3 = Inr 7"
proof -
  have c: "GetDocumentCount demo_server = 3"
    by (simp add: GetDocumentCount_def demo_server_def)
  have f: "\<not> map_count (documents demo_server) 5" "\<not> map_count (documents demo_server) 7"
    by (simp_all add: demo_server_def map_count_def)
  have t: "list_all (IsStopWord demo_server) (SplitIntoWords ''a with  the'')"
    "list_all (IsStopWord demo_server) (SplitIntoWords '''')"
    by (simp_all add: SplitIntoWords_def IsStopWord_def demo_server_def)
  from AddDocument_without_words [OF demo_engine _ f(1) t(1), of BANNED "[4]"]
    AddDocument_without_words [OF demo_engine _ f(2) t(2), of ACTUAL "[]"] c
  show ?thesis by simp
qed

section \<open>The window of the request queue\<close>

lemmas ranking_eval =
  query_eval FindTopDocuments_def FindAllDocuments_def ComputeWordInverseDocumentFreq_def
  GetDocumentCount_def std_sort_def linear_insert_def relevance_rating_less_def
  MAX_RESULT_DOCUMENT_COUNT_def

lemma int_of_size_t_small: "k < 2 ^ 31 \<Longrightarrow> int_of_size_t k = int k"
proof -
  assume a: "k < 2 ^ 31"
  have "int_of_size_t k = sint (word_of_int (int k) :: 32 word)"
    by (simp add: int_of_size_t_def)
  also have "\<dots> = signed_take_bit (LENGTH(32) - 1) (int k)"
    by (rule sint_sbintrunc')
  also have "\<dots> = int k"
  proof -
    from a have "int k < 2 ^ 31" by simp
    then show ?thesis by (simp add: signed_take_bit_int_eq_self)
  qed
  finally show ?thesis .
qed



lemma FindTopDocuments_length:
  "FindTopDocuments s raw_query p = Inr ds \<Longrightarrow> length ds \<le> MAX_RESULT_DOCUMENT_COUNT"
  by (auto simp: FindTopDocuments_def Let_def split: sum.splits if_splits)

lemma length_window: "length (window hs) = min (length hs) min_in_day"
  by (auto simp: window_def)

lemma window_short: "length hs < min_in_day \<Longrightarrow> window hs = hs"
  by (simp add: window_def)

lemma window_snoc_short: "length hs < min_in_day \<Longrightarrow> window (hs @ [k]) = hs @ [k]"
  by (simp add: window_def)

lemma window_snoc_full:
  assumes "min_in_day \<le> length hs"
  shows "window (hs @ [k]) = tl (window hs) @ [k]"
proof -
  have "0 < min_in_day" by (simp add: min_in_day_def)
  with assms have "Suc (length hs) - min_in_day = Suc (length hs - min_in_day)"
    and "Suc (length hs - min_in_day) \<le> length hs"
    by simp_all
  then show ?thesis
    by (simp add: window_def drop_Suc tl_drop)
qed

lemma no_result_count_snoc:
  "no_result_count (hs @ [k]) = no_result_count hs + of_bool (k = 0)"
  by (simp add: no_result_count_def)

lemma no_result_count_tl:
  "hs \<noteq> [] \<Longrightarrow> no_result_count (tl hs) = no_result_count hs - of_bool (hd hs = 0)"
  by (cases hs) (simp_all add: no_result_count_def)

lemma queue_inv_init: "queue_inv [] RequestQueue_init"
  by (simp add: queue_inv_def RequestQueue_init_def window_def GetNoResultRequests_def
      no_result_count_def)

lemma queue_inv_failed:
  "AddFindRequest srv raw p q = (Inl e, q') \<Longrightarrow> q' = q"
  by (auto simp: AddFindRequest_def Let_def split: sum.splits)

lemma queue_inv_step:
  assumes inv: "queue_inv hs q"
    and step: "AddFindRequest srv raw p q = (Inr ds, q')"
  shows "queue_inv (hs @ [length ds]) q'"
proof -
  from step have ftd: "FindTopDocuments srv raw p = Inr ds"
    by (auto simp: AddFindRequest_def Let_def split: sum.splits)
  then have small: "length ds \<le> MAX_RESULT_DOCUMENT_COUNT"
    by (rule FindTopDocuments_length)
  from inv have w: "map number_of_request_results (requests q) = window hs"
    and t: "map request_time (requests q)
          = map (\<lambda>i. word_of_nat (Suc i)) [length hs - length (window hs) ..< length hs]"
    and c: "GetNoResultRequests q = no_result_count (window hs)"
    and i: "current_request_id q = word_of_nat (length hs)"
    and b: "list_all (\<lambda>k. k \<le> MAX_RESULT_DOCUMENT_COUNT) hs"
    by (simp_all add: queue_inv_def)
  from w have len: "length (requests q) = min (length hs) min_in_day"
    by (metis length_map length_window)
  have pos: "0 < min_in_day" by (simp add: min_in_day_def)
  let ?id = "word_of_nat (Suc (length hs)) :: 64 word"
  have id: "current_request_id q + 1 = ?id"
    by (simp add: i)
  consider (empty) "requests q = []" | (full) "requests q \<noteq> []" "length (requests q) = min_in_day"
    | (part) "requests q \<noteq> []" "length (requests q) \<noteq> min_in_day"
    by blast
  then show ?thesis
  proof cases
    case empty
    with len pos have h: "hs = []" by (cases hs) auto
    from step ftd empty show ?thesis
      by (auto simp: AddFindRequest_def Let_def queue_inv_def h window_def min_in_day_def
          GetNoResultRequests_def no_result_count_def i small)
  next
    case full
    with len have ge: "min_in_day \<le> length hs" by auto
    have lw: "length (window hs) = min_in_day"
      using ge by (simp add: length_window)
    have wne: "window hs \<noteq> []" using lw pos by auto
    have hdw: "number_of_request_results (hd (requests q)) = hd (window hs)"
      using w full(1) by (metis hd_map)
    have "hd (window hs) \<in> set hs"
      using wne by (metis hd_in_set in_set_dropD window_def)
    with b have "hd (window hs) \<le> MAX_RESULT_DOCUMENT_COUNT"
      by (simp add: list_all_iff)
    then have conv: "int_of_size_t (hd (window hs)) = int (hd (window hs))"
      by (intro int_of_size_t_small) (simp add: MAX_RESULT_DOCUMENT_COUNT_def)
    have prev: "number_of_no_results (last (requests q)) = no_result_count (window hs)"
      using c full(1) by (simp add: GetNoResultRequests_def)
    have q': "q' = q\<lparr>current_request_id := ?id,
                    requests := tl (requests q) @
                      [\<lparr>request_time = ?id, number_of_request_results = length ds,
                        number_of_no_results = no_result_count (window hs) + of_bool (length ds = 0)
                           - of_bool (hd (window hs) = 0)\<rparr>]\<rparr>"
      using step ftd full
      by (auto simp: AddFindRequest_def Let_def id prev hdw conv)
    let ?f = "\<lambda>i. word_of_nat (Suc i) :: 64 word"
    from ge pos have e: "Suc (length hs) - min_in_day = Suc (length hs - min_in_day)"
      and l: "length hs - min_in_day < length hs"
      by simp_all
    have lw': "length (window (hs @ [length ds])) = min_in_day"
      using ge by (simp add: length_window)
    have c1: "map number_of_request_results (requests q') = window (hs @ [length ds])"
      using w full(1) by (simp add: q' window_snoc_full [OF ge] map_tl)
    have "[length hs - min_in_day ..< length hs]
            = (length hs - min_in_day) # [Suc (length hs - min_in_day) ..< length hs]"
      using l by (rule upt_conv_Cons)
    then have "tl (map ?f [length hs - min_in_day ..< length hs])
                 = map ?f [Suc (length hs - min_in_day) ..< length hs]"
      by simp
    moreover have "[Suc (length hs - min_in_day) ..< Suc (length hs)]
                     = [Suc (length hs - min_in_day) ..< length hs] @ [length hs]"
      using l by simp
    ultimately have "tl (map ?f [length hs - min_in_day ..< length hs]) @ [?id]
                 = map ?f [Suc (length hs) - min_in_day ..< Suc (length hs)]"
      unfolding e by simp
    moreover have "map request_time (requests q') = tl (map request_time (requests q)) @ [?id]"
      using full(1) by (simp add: q' map_tl)
    ultimately have c2: "map request_time (requests q')
          = map ?f [length (hs @ [length ds]) - length (window (hs @ [length ds]))
                      ..< length (hs @ [length ds])]"
      unfolding lw' t lw by simp
    have c3: "GetNoResultRequests q' = no_result_count (window (hs @ [length ds]))"
      by (simp add: q' GetNoResultRequests_def window_snoc_full [OF ge] no_result_count_snoc
          no_result_count_tl [OF wne])
    have c4: "current_request_id q' = word_of_nat (length (hs @ [length ds]))"
      by (simp add: q')
    have c5: "list_all (\<lambda>k. k \<le> MAX_RESULT_DOCUMENT_COUNT) (hs @ [length ds])"
      using b small by simp
    from c1 c2 c3 c4 c5 show ?thesis
      unfolding queue_inv_def by blast
  next
    case part
    with len have lt: "length hs < min_in_day" by auto
    have prev: "number_of_no_results (last (requests q)) = no_result_count (window hs)"
      using c part(1) by (simp add: GetNoResultRequests_def)
    have q': "q' = q\<lparr>current_request_id := ?id,
                    requests := requests q @
                      [\<lparr>request_time = ?id, number_of_request_results = length ds,
                        number_of_no_results = no_result_count (window hs)
                           + of_bool (length ds = 0)\<rparr>]\<rparr>"
      using step ftd part
      by (auto simp: AddFindRequest_def Let_def id prev)
    show ?thesis
      unfolding queue_inv_def q'
      using w t b small lt
      by (simp add: window_snoc_short window_short GetNoResultRequests_def no_result_count_snoc)
  qed
qed

lemma AddFindRequests_inv:
  "queue_inv hs q \<Longrightarrow> AddFindRequests calls q = (outs, q') \<Longrightarrow>
     queue_inv (hs @ result_sizes outs) q'"
proof (induction calls arbitrary: hs q outs)
  case Nil
  then show ?case by simp
next
  case (Cons call calls)
  obtain r q1 where s: "AddFindRequest (fst call) (fst (snd call)) (snd (snd call)) q = (r, q1)"
    by (cases "AddFindRequest (fst call) (fst (snd call)) (snd (snd call)) q") auto
  obtain outs1 where l: "AddFindRequests calls q1 = (outs1, q')" and o: "outs = r # outs1"
    using Cons.prems(2) s
    by (cases "AddFindRequests calls q1") (auto simp: Let_def)
  show ?case
  proof (cases r)
    case (Inl e)
    with s have "q1 = q" by (auto dest: queue_inv_failed)
    with Cons.IH [OF Cons.prems(1)] l o Inl show ?thesis by simp
  next
    case (Inr ds)
    with s Cons.prems(1) have "queue_inv (hs @ [length ds]) q1"
      by (auto intro: queue_inv_step)
    from Cons.IH [OF this l] o Inr show ?thesis by simp
  qed
qed


text \<open>
  Claim C3. Start from an empty queue and issue any run of tracked requests; let the
  sizes of the result lists of those that succeeded be taken in order, \<open>n\<close> of them. The
  queue then holds \<open>min n 1440\<close> records, namely those of the most recent successful
  requests in their order (the oldest were dropped from the front), with the request
  numbers \<open>n - 1440 + 1, \<dots>, n\<close> counted from 1, and the count that
  \<^verbatim>\<open>GetNoResultRequests\<close> reports is the number of empty results among them. The count is
  kept incrementally: the next successful request adds one for an empty result and
  subtracts one when the queue is full and its front record is an empty result; it reads
  no other record.
\<close>

theorem RequestQueue_sliding_window:
  assumes "AddFindRequests calls RequestQueue_init = (outs, q)"
  shows "length (requests q) = min (length (result_sizes outs)) min_in_day
     \<and> map number_of_request_results (requests q)
         = drop (length (result_sizes outs) - min_in_day) (result_sizes outs)
     \<and> map request_time (requests q)
         = map (\<lambda>i. word_of_nat (Suc i))
             [length (result_sizes outs) - min_in_day ..< length (result_sizes outs)]
     \<and> GetNoResultRequests q
         = int (length (filter (\<lambda>k. k = 0)
                  (drop (length (result_sizes outs) - min_in_day) (result_sizes outs))))
     \<and> (\<forall>srv raw p ds q'.
           AddFindRequest srv raw p q = (Inr ds, q') \<longrightarrow>
           GetNoResultRequests q'
             = GetNoResultRequests q + of_bool (ds = [])
               - of_bool (length (requests q) = min_in_day
                          \<and> number_of_request_results (hd (requests q)) = 0))"
proof -
  let ?hs = "result_sizes outs"
  from AddFindRequests_inv [OF queue_inv_init assms] have inv: "queue_inv ?hs q"
    by simp
  then have w: "map number_of_request_results (requests q) = window ?hs"
    and t: "map request_time (requests q)
          = map (\<lambda>i. word_of_nat (Suc i)) [length ?hs - length (window ?hs) ..< length ?hs]"
    and c: "GetNoResultRequests q = no_result_count (window ?hs)"
    by (simp_all add: queue_inv_def)
  from w have len: "length (requests q) = min (length ?hs) min_in_day"
    by (metis length_map length_window)
  have step: "GetNoResultRequests q'
             = GetNoResultRequests q + of_bool (ds = [])
               - of_bool (length (requests q) = min_in_day
                          \<and> number_of_request_results (hd (requests q)) = 0)"
    if s: "AddFindRequest srv raw p q = (Inr ds, q')" for srv raw p ds q'
  proof -
    from queue_inv_step [OF inv s]
    have c': "GetNoResultRequests q' = no_result_count (window (?hs @ [length ds]))"
      by (simp add: queue_inv_def)
    show ?thesis
    proof (cases "length ?hs < min_in_day")
      case True
      then show ?thesis
        using c c' len by (simp add: window_snoc_short window_short no_result_count_snoc)
    next
      case False
      then have ge: "min_in_day \<le> length ?hs" by simp
      have "0 < min_in_day" by (simp add: min_in_day_def)
      with ge have wne: "window ?hs \<noteq> []"
        using length_window [of ?hs] by auto
      with w have "requests q \<noteq> []" by auto
      with w have "number_of_request_results (hd (requests q)) = hd (window ?hs)"
        by (metis hd_map)
      then show ?thesis
        using c c' len ge
        by (simp add: window_snoc_full [OF ge] no_result_count_snoc no_result_count_tl [OF wne])
    qed
  qed
  from w t c len step show ?thesis
    by (simp add: window_def no_result_count_def length_window)
qed

lemma demo_requests_outcomes:
  "fst (AddFindRequests demo_requests RequestQueue_init) =
     [Inr [], Inr [\<lparr>doc_id = 0, relevance = ln 3 / 4, rating = 2\<rparr>], Inl EmptySearchRequest]"
  by (simp add: demo_requests_def AddFindRequest_def RequestQueue_init_def demo_server_def
      ranking_eval)

theorem RequestQueue_sliding_window_witness:
  "GetNoResultRequests (snd (AddFindRequests demo_requests RequestQueue_init)) = 1
   \<and> map number_of_request_results (requests (snd (AddFindRequests demo_requests RequestQueue_init)))
       = [0, 1]
   \<and> map request_time (requests (snd (AddFindRequests demo_requests RequestQueue_init))) = [1, 2]"
proof -
  have "AddFindRequests demo_requests RequestQueue_init
          = (fst (AddFindRequests demo_requests RequestQueue_init),
             snd (AddFindRequests demo_requests RequestQueue_init))"
    by simp
  from RequestQueue_sliding_window [OF this] show ?thesis
    unfolding demo_requests_outcomes by (simp add: min_in_day_def)
qed

section \<open>Relevance of the documents found\<close>

lemma keys_iff_map_count: "map_count m k \<longleftrightarrow> k \<in> fst ` set m"
  by (simp add: map_count_def map_of_eq_None_iff)

lemma map_index_map_put: "map_index (map_put k v m) k' d = (if k' = k then v else map_index m k' d)"
  by (simp add: map_index_def map_of_map_put)

lemma postings_loop:
  assumes "distinct (map fst postings)"
    and "FindAllDocuments_postings s p idf postings acc = Inr acc'"
  shows "map_of acc' k =
           (if k \<in> fst ` set postings \<and> predicate_holds s p k
            then Some (map_index acc k 0 + the (map_of postings k) * idf)
            else map_of acc k)"
  using assms
proof (induction postings arbitrary: acc)
  case Nil
  then show ?case by simp
next
  case (Cons e postings)
  from Cons.prems(2) obtain dd where dd: "map_of (documents s) (fst e) = Some dd"
    by (auto simp: map_at_def split: option.splits sum.splits)
  let ?acc1 = "if p (fst e) (status dd) (rating_d dd)
               then map_put (fst e) (map_index acc (fst e) 0 + snd e * idf) acc else acc"
  from Cons.prems(2) dd have r: "FindAllDocuments_postings s p idf postings ?acc1 = Inr acc'"
    by (simp add: map_at_def split: if_splits)
  from Cons.prems(1) have d: "distinct (map fst postings)" and n: "fst e \<notin> fst ` set postings"
    by simp_all
  note ih = Cons.IH [OF d r]
  show ?case
  proof (cases "k = fst e")
    case True
    with n ih dd show ?thesis
      by (cases e) (simp add: predicate_holds_def map_of_map_put)
  next
    case False
    with ih show ?thesis
      by (cases e) (auto simp: map_index_map_put map_of_map_put)
  qed
qed

lemma postings_loop_sorted:
  "FindAllDocuments_postings s p idf postings acc = Inr acc' \<Longrightarrow>
     sorted_wrt (<) (map fst acc) \<Longrightarrow> sorted_wrt (<) (map fst acc')"
proof (induction postings arbitrary: acc)
  case Nil
  then show ?case by simp
next
  case (Cons e postings)
  then show ?case
    by (auto simp: sorted_map_put split: sum.splits if_splits)
qed

lemma postings_loop_total:
  "list_all (\<lambda>posting. map_count (documents s) (fst posting)) postings \<Longrightarrow>
     \<exists>acc'. FindAllDocuments_postings s p idf postings acc = Inr acc'"
proof (induction postings arbitrary: acc)
  case Nil
  then show ?case by simp
next
  case (Cons e postings)
  then show ?case
    by (auto simp: map_count_def map_at_def split: option.splits)
qed

lemma server_inv_postings:
  assumes "server_inv s" and "map_of (word_to_document_freqs s) word = Some postings"
  shows "sorted_wrt (<) (map fst postings)"
    and "list_all (\<lambda>posting. map_count (documents s) (fst posting)) postings"
proof -
  from assms(2) have "(word, postings) \<in> set (word_to_document_freqs s)"
    by (rule map_of_SomeD)
  with assms(1) have "postings_ok (documents s) (word, postings)"
    by (auto simp: server_inv_def list_all_iff)
  then show "sorted_wrt (<) (map fst postings)"
    and "list_all (\<lambda>posting. map_count (documents s) (fst posting)) postings"
    by (simp_all add: postings_ok_def)
qed

lemma word_in_document_keys:
  "map_of (word_to_document_freqs s) word = Some postings \<Longrightarrow>
     word_in_document s word k \<longleftrightarrow> k \<in> fst ` set postings"
  by (simp add: word_in_document_def keys_iff_map_count)

lemma word_in_document_absent:
  "\<not> map_count (word_to_document_freqs s) word \<Longrightarrow> \<not> word_in_document s word k"
  by (simp add: word_in_document_def map_count_def)

lemma term_frequency_absent:
  "\<not> word_in_document s word k \<Longrightarrow> term_frequency s word k = 0"
  by (auto simp: word_in_document_def term_frequency_def map_index_def map_count_def
      split: option.splits)

lemma tf_idf_sum_snoc:
  "tf_idf_sum s (ws @ [word]) k =
     (if map_count (word_to_document_freqs s) word
      then tf_idf_sum s ws k + term_frequency s word k * inverse_document_frequency s word
      else tf_idf_sum s ws k)"
  by (simp add: tf_idf_sum_def)

lemma tf_idf_sum_unmatched:
  "\<forall>word \<in> set ws. \<not> word_in_document s word k \<Longrightarrow> tf_idf_sum s ws k = 0"
  by (induction ws rule: rev_induct) (simp_all add: tf_idf_sum_def term_frequency_absent)

lemma accumulated_step:
  assumes inv: "server_inv s"
    and acc: "accumulated s p ws acc"
    and pst: "map_of (word_to_document_freqs s) word = Some postings"
    and run: "FindAllDocuments_postings s p (inverse_document_frequency s word) postings acc
                = Inr acc'"
  shows "accumulated s p (ws @ [word]) acc'"
  unfolding accumulated_def
proof
  fix k
  have cnt: "map_count (word_to_document_freqs s) word"
    using pst by (simp add: map_count_def)
  have d: "distinct (map fst postings)"
    using server_inv_postings(1) [OF inv pst] by (simp add: strict_sorted_iff)
  note loop = postings_loop [OF d run, of k]
  from acc have a: "map_of acc k =
        (if predicate_holds s p k \<and> (\<exists>w \<in> set ws. word_in_document s w k)
         then Some (tf_idf_sum s ws k) else None)"
    by (simp add: accumulated_def)
  show "map_of acc' k =
        (if predicate_holds s p k \<and> (\<exists>w \<in> set (ws @ [word]). word_in_document s w k)
         then Some (tf_idf_sum s (ws @ [word]) k) else None)"
  proof (cases "k \<in> fst ` set postings")
    case True
    then have w: "word_in_document s word k"
      using pst by (simp add: word_in_document_keys)
    from True obtain v where v: "map_of postings k = Some v"
      by (metis map_of_eq_None_iff not_Some_eq)
    then have tf: "term_frequency s word k = v"
      by (simp add: term_frequency_def map_index_def pst)
    show ?thesis
    proof (cases "\<exists>w \<in> set ws. word_in_document s w k")
      case True
      with loop a w v tf cnt \<open>k \<in> fst ` set postings\<close> show ?thesis
        by (simp add: tf_idf_sum_snoc map_index_def)
    next
      case False
      then have "tf_idf_sum s ws k = 0"
        by (simp add: tf_idf_sum_unmatched)
      with False loop a w v tf cnt \<open>k \<in> fst ` set postings\<close> show ?thesis
        by (simp add: tf_idf_sum_snoc map_index_def)
    qed
  next
    case False
    then have w: "\<not> word_in_document s word k"
      using pst by (simp add: word_in_document_keys)
    then have "term_frequency s word k = 0"
      by (rule term_frequency_absent)
    with False loop a w cnt show ?thesis
      by (simp add: tf_idf_sum_snoc)
  qed
qed

lemma accumulated_skip:
  assumes "accumulated s p ws acc" and "\<not> map_count (word_to_document_freqs s) word"
  shows "accumulated s p (ws @ [word]) acc"
  using assms
  by (simp add: accumulated_def tf_idf_sum_snoc word_in_document_absent)

lemma idf_eq:
  "map_of (word_to_document_freqs s) word = Some postings \<Longrightarrow>
     ComputeWordInverseDocumentFreq s word = Inr (inverse_document_frequency s word)"
  by (simp add: ComputeWordInverseDocumentFreq_def inverse_document_frequency_def map_at_def
      map_index_def)

lemma plus_loop:
  assumes "server_inv s"
  shows "FindAllDocuments_plus s p ws acc = Inr acc' \<Longrightarrow> accumulated s p ws0 acc \<Longrightarrow>
           accumulated s p (ws0 @ ws) acc'"
proof (induction ws arbitrary: acc ws0)
  case Nil
  then show ?case by simp
next
  case (Cons word ws)
  show ?case
  proof (cases "map_of (word_to_document_freqs s) word")
    case None
    then have n: "\<not> map_count (word_to_document_freqs s) word"
      by (simp add: map_count_def)
    with Cons.prems(1) have "FindAllDocuments_plus s p ws acc = Inr acc'"
      by simp
    from Cons.IH [OF this accumulated_skip [OF Cons.prems(2) n]] show ?thesis
      by simp
  next
    case (Some postings)
    then have c: "map_count (word_to_document_freqs s) word"
      by (simp add: map_count_def)
    from Cons.prems(1) c Some obtain acc1
      where l: "FindAllDocuments_postings s p (inverse_document_frequency s word) postings acc
                  = Inr acc1"
        and r: "FindAllDocuments_plus s p ws acc1 = Inr acc'"
      by (auto simp: idf_eq map_at_def split: sum.splits)
    from Cons.IH [OF r accumulated_step [OF assms Cons.prems(2) Some l]] show ?thesis
      by simp
  qed
qed

lemma plus_loop_sorted:
  "FindAllDocuments_plus s p ws acc = Inr acc' \<Longrightarrow> sorted_wrt (<) (map fst acc) \<Longrightarrow>
     sorted_wrt (<) (map fst acc')"
proof (induction ws arbitrary: acc)
  case Nil
  then show ?case by simp
next
  case (Cons word ws)
  then show ?case
    by (auto split: if_splits sum.splits dest: postings_loop_sorted)
qed

lemma plus_loop_total:
  assumes "server_inv s"
  shows "\<exists>acc'. FindAllDocuments_plus s p ws acc = Inr acc'"
proof (induction ws arbitrary: acc)
  case Nil
  then show ?case by simp
next
  case (Cons word ws)
  show ?case
  proof (cases "map_of (word_to_document_freqs s) word")
    case None
    with Cons.IH show ?thesis by (simp add: map_count_def)
  next
    case (Some postings)
    from postings_loop_total [OF server_inv_postings(2) [OF assms Some]]
    obtain acc1 where "FindAllDocuments_postings s p (inverse_document_frequency s word)
                         postings acc = Inr acc1"
      by blast
    with Some Cons.IH [of acc1] show ?thesis
      by (simp add: idf_eq map_at_def map_count_def)
  qed
qed

lemma map_of_map_erase: "map_of (map_erase k m) k' = (if k' = k then None else map_of m k')"
  by (induction m) (auto simp: map_erase_def)

lemma erase_postings:
  "map_of (fold (\<lambda>posting m. map_erase (fst posting) m) postings acc) k =
     (if k \<in> fst ` set postings then None else map_of acc k)"
  by (induction postings arbitrary: acc) (auto simp: map_of_map_erase)

lemma erase_postings_sorted:
  "sorted_wrt (<) (map fst acc) \<Longrightarrow>
     sorted_wrt (<) (map fst (fold (\<lambda>posting m. map_erase (fst posting) m) postings acc))"
proof (induction postings arbitrary: acc)
  case Nil
  then show ?case by simp
next
  case (Cons e postings)
  have "sorted_wrt (<) (map fst (map_erase (fst e) acc))"
    using Cons.prems unfolding map_erase_def
    by (induction acc) auto
  then show ?case
    using Cons.IH by simp
qed

lemma minus_loop:
  "FindAllDocuments_minus s ws acc = Inr acc' \<Longrightarrow>
     map_of acc' k = (if \<exists>word \<in> set ws. word_in_document s word k then None else map_of acc k)"
proof (induction ws arbitrary: acc)
  case Nil
  then show ?case by simp
next
  case (Cons word ws)
  show ?case
  proof (cases "map_of (word_to_document_freqs s) word")
    case None
    with Cons show ?thesis
      by (simp add: map_count_def word_in_document_def)
  next
    case (Some postings)
    with Cons.prems
    have "FindAllDocuments_minus s ws
            (fold (\<lambda>posting m. map_erase (fst posting) m) postings acc) = Inr acc'"
      by (simp add: map_count_def map_at_def)
    from Cons.IH [OF this] Some show ?thesis
      by (auto simp: erase_postings word_in_document_keys)
  qed
qed

lemma minus_loop_sorted:
  "FindAllDocuments_minus s ws acc = Inr acc' \<Longrightarrow> sorted_wrt (<) (map fst acc) \<Longrightarrow>
     sorted_wrt (<) (map fst acc')"
proof (induction ws arbitrary: acc)
  case Nil
  then show ?case by simp
next
  case (Cons word ws)
  then show ?case
    by (auto simp: erase_postings_sorted map_at_def split: if_splits sum.splits option.splits)
qed

lemma minus_loop_total: "\<exists>acc'. FindAllDocuments_minus s ws acc = Inr acc'"
  by (induction ws arbitrary: acc) (auto simp: map_at_def map_count_def split: option.splits)

lemma collect_loop:
  "FindAllDocuments_collect s m acc = Inr ds \<Longrightarrow> ds = acc @ map (to_document s) m"
proof (induction m arbitrary: acc)
  case Nil
  then show ?case by simp
next
  case (Cons entry m)
  from Cons.prems obtain dd where dd: "map_of (documents s) (fst entry) = Some dd"
    by (auto simp: map_at_def split: option.splits)
  with Cons.prems
  have "FindAllDocuments_collect s m
          (acc @ [\<lparr>doc_id = fst entry, relevance = snd entry, rating = rating_d dd\<rparr>]) = Inr ds"
    by (simp add: map_at_def)
  from Cons.IH [OF this] dd show ?case
    by (simp add: to_document_def)
qed

lemma collect_loop_total:
  "\<forall>entry \<in> set m. map_count (documents s) (fst entry) \<Longrightarrow>
     \<exists>ds. FindAllDocuments_collect s m acc = Inr ds"
  by (induction m arbitrary: acc) (auto simp: map_at_def map_count_def)

lemma FindAllDocuments_found:
  assumes inv: "server_inv s" and run: "FindAllDocuments s query p = Inr found"
  shows "\<exists>m. found = map (to_document s) m \<and> distinct (map fst m)
           \<and> (\<forall>k. map_of m k =
                 (if predicate_holds s p k
                     \<and> (\<exists>word \<in> set (plus_words query). word_in_document s word k)
                     \<and> \<not> (\<exists>word \<in> set (minus_words query). word_in_document s word k)
                  then Some (tf_idf_sum s (plus_words query) k) else None))"
proof -
  from run obtain acc m
    where a: "FindAllDocuments_plus s p (plus_words query) [] = Inr acc"
      and b: "FindAllDocuments_minus s (minus_words query) acc = Inr m"
      and c: "FindAllDocuments_collect s m [] = Inr found"
    by (auto simp: FindAllDocuments_def split: sum.splits)
  have "accumulated s p [] []"
    by (simp add: accumulated_def)
  from plus_loop [OF inv a this] have acc: "accumulated s p (plus_words query) acc"
    by simp
  have "sorted_wrt (<) (map fst acc)"
    using plus_loop_sorted [OF a] by simp
  then have "sorted_wrt (<) (map fst m)"
    by (rule minus_loop_sorted [OF b])
  then have "distinct (map fst m)"
    by (simp add: strict_sorted_iff)
  moreover have "found = map (to_document s) m"
    using collect_loop [OF c] by simp
  moreover have "map_of m k =
                 (if predicate_holds s p k
                     \<and> (\<exists>word \<in> set (plus_words query). word_in_document s word k)
                     \<and> \<not> (\<exists>word \<in> set (minus_words query). word_in_document s word k)
                  then Some (tf_idf_sum s (plus_words query) k) else None)" for k
    using minus_loop [OF b, of k] acc by (simp add: accumulated_def)
  ultimately show ?thesis by blast
qed

lemma FindAllDocuments_total:
  assumes inv: "server_inv s"
  shows "\<exists>found. FindAllDocuments s query p = Inr found"
proof -
  from plus_loop_total [OF inv] obtain acc
    where a: "FindAllDocuments_plus s p (plus_words query) [] = Inr acc"
    by blast
  from minus_loop_total obtain m
    where b: "FindAllDocuments_minus s (minus_words query) acc = Inr m"
    by blast
  have "accumulated s p [] []"
    by (simp add: accumulated_def)
  from plus_loop [OF inv a this] have acc: "accumulated s p (plus_words query) acc"
    by simp
  have "map_count (documents s) (fst entry)" if "entry \<in> set m" for entry
  proof -
    from that have "map_of m (fst entry) \<noteq> None"
      by (simp add: map_of_eq_None_iff)
    with minus_loop [OF b, of "fst entry"] have "map_of acc (fst entry) \<noteq> None"
      by (auto split: if_splits)
    with acc have "predicate_holds s p (fst entry)"
      by (auto simp: accumulated_def split: if_splits)
    then show ?thesis
      by (auto simp: predicate_holds_def map_count_def split: option.splits)
  qed
  then obtain found where "FindAllDocuments_collect s m [] = Inr found"
    using collect_loop_total [of m s "[]"] by blast
  with a b show ?thesis
    by (simp add: FindAllDocuments_def)
qed

lemma mset_linear_insert: "mset (linear_insert cmp v xs) = add_mset v (mset xs)"
proof -
  have "mset (takeWhile (cmp v) (rev xs)) + mset (dropWhile (cmp v) (rev xs)) = mset (rev xs)"
    by (metis mset_append takeWhile_dropWhile_id)
  then have "mset (dropWhile (cmp v) (rev xs)) + mset (takeWhile (cmp v) (rev xs)) = mset xs"
    by (metis add.commute mset_rev)
  then show ?thesis
    by (simp add: linear_insert_def)
qed

lemma mset_foldl_linear_insert:
  "mset (foldl (\<lambda>sorted_prefix val. linear_insert cmp val sorted_prefix) acc xs)
     = mset acc + mset xs"
  by (induction xs arbitrary: acc) (simp_all add: mset_linear_insert)

lemma mset_std_sort: "mset (std_sort cmp xs) = mset xs"
  by (simp add: std_sort_def mset_foldl_linear_insert)

lemma set_std_sort: "set (std_sort cmp xs) = set xs"
  by (metis mset_std_sort set_mset_mset)

lemma FindTopDocuments_results:
  assumes "ParseQuery s raw_query = Inr query"
  shows "FindTopDocuments s raw_query p = Inr ds \<longleftrightarrow>
           raw_query \<noteq> []
           \<and> (\<exists>found. FindAllDocuments s query p = Inr found
                \<and> ds = take MAX_RESULT_DOCUMENT_COUNT (std_sort relevance_rating_less found))"
  using assms
  by (auto simp: FindTopDocuments_def Let_def split: sum.splits)

text \<open>
  Claim C2. On an engine state, every document that \<^verbatim>\<open>FindTopDocuments\<close> returns has as
  relevance the sum, over the plus words of the query that the inverted index holds, of
  the term frequency stored for the word and the document (zero when the postings of
  the word do not hold the document) times the logarithm of the document count over the
  number of postings of the word. The document matches at least one plus word and no
  minus word, and the predicate holds of its id, status and rating: a document that
  fails one of the three is not returned. (\<^verbatim>\<open>double\<close> arithmetic is read as exact.)
\<close>

theorem FindTopDocuments_relevance:
  assumes "engine stop_words_arg calls = Inr s"
    and "ParseQuery s raw_query = Inr query"
    and "FindTopDocuments s raw_query p = Inr ds"
    and "d \<in> set ds"
  shows "relevance d =
           (\<Sum>word \<leftarrow> filter (map_count (word_to_document_freqs s)) (plus_words query).
              term_frequency s word (doc_id d) * inverse_document_frequency s word)
         \<and> (\<exists>word \<in> set (plus_words query). word_in_document s word (doc_id d))
         \<and> (\<forall>word \<in> set (minus_words query). \<not> word_in_document s word (doc_id d))
         \<and> predicate_holds s p (doc_id d)"
proof -
  from assms(1) have inv: "server_inv s" by (rule engine_inv)
  from assms(2,3) obtain found
    where f: "FindAllDocuments s query p = Inr found"
      and ds: "ds = take MAX_RESULT_DOCUMENT_COUNT (std_sort relevance_rating_less found)"
    by (auto simp: FindTopDocuments_results)
  from assms(4) ds have "d \<in> set found"
    by (auto dest: in_set_takeD simp: set_std_sort)
  moreover from FindAllDocuments_found [OF inv f] obtain m
    where m: "found = map (to_document s) m" and dist: "distinct (map fst m)"
      and lk: "\<And>k. map_of m k =
                 (if predicate_holds s p k
                     \<and> (\<exists>word \<in> set (plus_words query). word_in_document s word k)
                     \<and> \<not> (\<exists>word \<in> set (minus_words query). word_in_document s word k)
                  then Some (tf_idf_sum s (plus_words query) k) else None)"
    by blast
  ultimately obtain entry where e: "entry \<in> set m" and d: "d = to_document s entry"
    by auto
  from map_of_is_SomeI [OF dist, of "fst entry" "snd entry"] e
  have "map_of m (fst entry) = Some (snd entry)"
    by simp
  with lk [of "fst entry"] d show ?thesis
    by (auto simp: to_document_def tf_idf_sum_def split: if_splits)
qed

lemma demo_search:
  "FindTopDocuments demo_server ''black cat -white'' (\<lambda>document_id st r. st = ACTUAL)
     = Inr [\<lparr>doc_id = 0, relevance = ln 3 / 4, rating = 2\<rparr>]"
  by (simp add: demo_server_def ranking_eval)

lemma demo_search_query:
  "ParseQuery demo_server ''black cat -white''
     = Inr \<lparr>plus_words = [''black'', ''cat''], minus_words = [''white'']\<rparr>"
  by (simp add: demo_server_def query_eval)

theorem FindTopDocuments_relevance_witness:
  "ln 3 / 4 =
     (\<Sum>word \<leftarrow> filter (map_count (word_to_document_freqs demo_server)) [''black'', ''cat''].
        term_frequency demo_server word 0 * inverse_document_frequency demo_server word)
   \<and> word_in_document demo_server ''black'' 0
   \<and> \<not> word_in_document demo_server ''white'' 0
   \<and> predicate_holds demo_server (\<lambda>document_id st r. st = ACTUAL) 0"
proof -
  have w: "\<not> word_in_document demo_server ''cat'' 0"
    by (simp add: word_in_document_def demo_server_def map_count_def)
  from FindTopDocuments_relevance [OF demo_engine demo_search_query demo_search,
      of "\<lparr>doc_id = 0, relevance = ln 3 / 4, rating = 2\<rparr>"] w
  show ?thesis by simp
qed

section \<open>Ranking of the results\<close>

lemma tied_sym: "tied a b \<longleftrightarrow> tied b a"
  by (simp add: tied_def abs_minus_commute)

lemma ranked_before_iff: "ranked_before a b \<longleftrightarrow> \<not> relevance_rating_less b a"
proof -
  have "\<bar>relevance b - relevance a\<bar> = \<bar>relevance a - relevance b\<bar>"
    by (rule abs_minus_commute)
  moreover have "0 < EPSILON"
    by (simp add: EPSILON_def)
  ultimately show ?thesis
    unfolding ranked_before_def relevance_rating_less_def tied_def
    by (cases "\<bar>relevance a - relevance b\<bar> < EPSILON") auto
qed

lemma relevance_rating_less_asym:
  "relevance_rating_less a b \<Longrightarrow> \<not> relevance_rating_less b a"
proof -
  have "\<bar>relevance b - relevance a\<bar> = \<bar>relevance a - relevance b\<bar>"
    by (rule abs_minus_commute)
  then show "relevance_rating_less a b \<Longrightarrow> \<not> relevance_rating_less b a"
    unfolding relevance_rating_less_def
    by (cases "\<bar>relevance a - relevance b\<bar> < EPSILON") auto
qed

lemma ranked_before_trans:
  assumes t1: "tied a b \<and> tied b c \<longrightarrow> tied a c"
    and t2: "tied b a \<and> tied a c \<longrightarrow> tied b c"
    and t3: "tied a c \<and> tied c b \<longrightarrow> tied a b"
    and ab: "ranked_before a b" and bc: "ranked_before b c"
  shows "ranked_before a c"
proof (cases "tied a b")
  case True
  note tab = this
  show ?thesis
  proof (cases "tied b c")
    case True
    with tab t1 have "tied a c" by simp
    with tab True ab bc show ?thesis
      by (simp add: ranked_before_def)
  next
    case False
    with tab t2 have n: "\<not> tied a c"
      using tied_sym by blast
    from False bc have "relevance c + EPSILON \<le> relevance b"
      by (simp add: ranked_before_def tied_def)
    moreover from tab have "relevance b < relevance a + EPSILON"
      by (simp add: tied_def)
    ultimately have "relevance c < relevance a" by simp
    with n show ?thesis
      by (simp add: ranked_before_def)
  qed
next
  case False
  note nab = this
  with ab have g: "relevance b + EPSILON \<le> relevance a"
    by (simp add: ranked_before_def tied_def)
  show ?thesis
  proof (cases "tied b c")
    case True
    with nab t3 have n: "\<not> tied a c"
      using tied_sym by blast
    from True have "relevance c < relevance b + EPSILON"
      by (simp add: tied_def)
    with g have "relevance c < relevance a" by simp
    with n show ?thesis
      by (simp add: ranked_before_def)
  next
    case False
    with bc have "relevance c + EPSILON \<le> relevance b"
      by (simp add: ranked_before_def tied_def)
    moreover have "0 < EPSILON" by (simp add: EPSILON_def)
    ultimately have "relevance c + EPSILON \<le> relevance a" using g by simp
    then have "\<not> tied a c" "relevance c < relevance a"
      using \<open>0 < EPSILON\<close> by (simp_all add: tied_def)
    then show ?thesis
      by (simp add: ranked_before_def)
  qed
qed

text \<open>
  One insertion keeps a prefix sorted when the comparator is asymmetric and ``does not
  precede'' is transitive on the elements: this is all that the results below use of the
  sorting algorithm.
\<close>

lemma linear_insert_sorted:
  fixes cmp :: "'a \<Rightarrow> 'a \<Rightarrow> bool"
  assumes asym: "\<And>a b. cmp a b \<Longrightarrow> \<not> cmp b a"
    and trans: "\<And>a b c. a \<in> A \<Longrightarrow> b \<in> A \<Longrightarrow> c \<in> A \<Longrightarrow>
                  \<not> cmp b a \<Longrightarrow> \<not> cmp c b \<Longrightarrow> \<not> cmp c a"
    and sub: "insert v (set xs) \<subseteq> A"
    and srt: "sorted_wrt (\<lambda>a b. \<not> cmp b a) xs"
  shows "sorted_wrt (\<lambda>a b. \<not> cmp b a) (linear_insert cmp v xs)"
proof (cases "xs \<noteq> [] \<and> cmp v (hd xs)")
  case True
  then obtain x xs' where xs: "xs = x # xs'" and c: "cmp v x"
    by (cases xs) auto
  have "\<not> cmp y v" if "y \<in> set xs" for y
  proof (cases "y = x")
    case True
    with c asym show ?thesis by blast
  next
    case False
    with that xs srt have "\<not> cmp y x" by auto
    moreover from c asym have "\<not> cmp x v" by blast
    ultimately show ?thesis
      using trans [of v x y] sub that xs by auto
  qed
  with True srt show ?thesis
    by (simp add: linear_insert_def)
next
  case False
  let ?ys = "rev xs"
  let ?tw = "takeWhile (cmp v) ?ys"
  let ?dw = "dropWhile (cmp v) ?ys"
  let ?R = "\<lambda>a b. \<not> cmp a b"
  have "sorted_wrt ?R ?ys"
    using srt by (simp add: sorted_wrt_rev)
  then have ys: "sorted_wrt ?R (?tw @ ?dw)"
    by (simp only: takeWhile_dropWhile_id)
  then have cross: "\<not> cmp t d" if "t \<in> set ?tw" and "d \<in> set ?dw" for t d
    using that unfolding sorted_wrt_append by blast
  from ys have stw: "sorted_wrt ?R ?tw" and sdw: "sorted_wrt ?R ?dw"
    unfolding sorted_wrt_append by blast+
  have mem: "set ?tw \<union> set ?dw = set xs"
    by (metis set_append set_rev takeWhile_dropWhile_id)
  have tw: "\<not> cmp t v" if "t \<in> set ?tw" for t
  proof -
    from that have "cmp v t" by (auto dest: set_takeWhileD)
    with asym show ?thesis by blast
  qed
  have dw: "\<not> cmp v d" if "d \<in> set ?dw" for d
  proof (cases ?dw)
    case Nil
    with that show ?thesis by simp
  next
    case (Cons d0 ds)
    then have h: "\<not> cmp v d0"
      by (metis hd_dropWhile list.sel(1) list.distinct(1))
    show ?thesis
    proof (cases "d = d0")
      case True
      with h show ?thesis by simp
    next
      case False
      with that Cons have "d \<in> set ds" by simp
      moreover from sdw Cons have "sorted_wrt ?R (d0 # ds)"
        by simp
      ultimately have "\<not> cmp d0 d" by simp
      moreover have "d \<in> A" "d0 \<in> A" "v \<in> A"
        using sub mem that Cons by auto
      ultimately show ?thesis
        using trans [of d d0 v] h by blast
    qed
  qed
  have "sorted_wrt ?R (?tw @ v # ?dw)"
    unfolding sorted_wrt_append sorted_wrt.simps
    using stw sdw tw dw cross by auto
  then have "sorted_wrt (\<lambda>a b. \<not> cmp b a) (rev (?tw @ v # ?dw))"
    by (simp only: sorted_wrt_rev)
  with False show ?thesis
    by (auto simp: linear_insert_def)
qed

lemma set_linear_insert: "set (linear_insert cmp v xs) = insert v (set xs)"
  by (metis mset_linear_insert set_mset_add_mset_insert set_mset_mset)

lemma foldl_linear_insert_sorted:
  fixes cmp :: "'a \<Rightarrow> 'a \<Rightarrow> bool"
  assumes asym: "\<And>a b. cmp a b \<Longrightarrow> \<not> cmp b a"
    and trans: "\<And>a b c. a \<in> A \<Longrightarrow> b \<in> A \<Longrightarrow> c \<in> A \<Longrightarrow>
                  \<not> cmp b a \<Longrightarrow> \<not> cmp c b \<Longrightarrow> \<not> cmp c a"
  shows "set acc \<union> set xs \<subseteq> A \<Longrightarrow> sorted_wrt (\<lambda>a b. \<not> cmp b a) acc \<Longrightarrow>
           sorted_wrt (\<lambda>a b. \<not> cmp b a)
             (foldl (\<lambda>sorted_prefix val. linear_insert cmp val sorted_prefix) acc xs)"
proof (induction xs arbitrary: acc)
  case Nil
  then show ?case by simp
next
  case (Cons x xs)
  from Cons.prems(1) have sub: "insert x (set acc) \<subseteq> A" by auto
  have "sorted_wrt (\<lambda>a b. \<not> cmp b a) (linear_insert cmp x acc)"
    by (rule linear_insert_sorted [where A = A, OF asym trans sub Cons.prems(2)])
  moreover have "set (linear_insert cmp x acc) \<union> set xs \<subseteq> A"
    using Cons.prems(1) by (auto simp: set_linear_insert)
  ultimately show ?case
    using Cons.IH by simp
qed

lemma std_sort_ranked:
  assumes "ties_transitive found"
  shows "ranked (std_sort relevance_rating_less found)"
proof -
  have tt: "tied a b \<and> tied b c \<longrightarrow> tied a c"
    if "a \<in> set found" "b \<in> set found" "c \<in> set found" for a b c
  proof -
    from assms
    have "\<forall>a \<in> set found. \<forall>b \<in> set found. \<forall>c \<in> set found.
            tied a b \<and> tied b c \<longrightarrow> tied a c"
      unfolding ties_transitive_def list_all_iff .
    with that show ?thesis by blast
  qed
  have trans: "\<not> relevance_rating_less c a"
    if "a \<in> set found" "b \<in> set found" "c \<in> set found"
      and "\<not> relevance_rating_less b a" and "\<not> relevance_rating_less c b" for a b c
  proof -
    from that(4,5) have "ranked_before a b" "ranked_before b c"
      by (simp_all add: ranked_before_iff)
    with tt [OF that(1,2,3)] tt [OF that(2,1,3)] tt [OF that(1,3,2)]
    have "ranked_before a c"
      by (rule ranked_before_trans)
    then show ?thesis by (simp add: ranked_before_iff)
  qed
  have "sorted_wrt (\<lambda>a b. \<not> relevance_rating_less b a)
          (foldl (\<lambda>sorted_prefix val. linear_insert relevance_rating_less val sorted_prefix)
             [] found)"
  proof (rule foldl_linear_insert_sorted [where A = "set found"])
    show "\<not> relevance_rating_less b a" if "relevance_rating_less a b" for a b
      using that by (rule relevance_rating_less_asym)
    show "\<not> relevance_rating_less c a"
      if "a \<in> set found" "b \<in> set found" "c \<in> set found"
        and "\<not> relevance_rating_less b a" and "\<not> relevance_rating_less c b" for a b c
      using that by (rule trans)
    show "set [] \<union> set found \<subseteq> set found" by simp
    show "sorted_wrt (\<lambda>a b. \<not> relevance_rating_less b a) []" by simp
  qed
  then show ?thesis
    by (simp add: ranked_def std_sort_def ranked_before_iff [abs_def])
qed

text \<open>
  Claim C1, amended. On an engine state and for a non-empty query that parses,
  \<^verbatim>\<open>FindTopDocuments\<close> returns at most 5 of the documents found. Whenever being within
  \<open>1e-6\<close> in relevance is transitive among the documents found, the result is sorted:
  of two results, the earlier one has the greater relevance, or the two are within
  \<open>1e-6\<close> and the earlier one has a rating that is not less.
\<close>

theorem FindTopDocuments_ranking:
  assumes "engine stop_words_arg calls = Inr s"
    and "ParseQuery s raw_query = Inr query"
    and "raw_query \<noteq> []"
  shows "\<exists>found ds. FindAllDocuments s query p = Inr found
           \<and> FindTopDocuments s raw_query p = Inr ds
           \<and> length ds \<le> 5
           \<and> set ds \<subseteq> set found
           \<and> (ties_transitive found \<longrightarrow> ranked ds)"
proof -
  from assms(1) have "server_inv s" by (rule engine_inv)
  then obtain found where f: "FindAllDocuments s query p = Inr found"
    using FindAllDocuments_total by blast
  let ?ds = "take MAX_RESULT_DOCUMENT_COUNT (std_sort relevance_rating_less found)"
  from f assms(2,3) have "FindTopDocuments s raw_query p = Inr ?ds"
    by (simp add: FindTopDocuments_results)
  moreover have "length ?ds \<le> 5"
    by (simp add: MAX_RESULT_DOCUMENT_COUNT_def)
  moreover have "set ?ds \<subseteq> set found"
    using set_take_subset [of MAX_RESULT_DOCUMENT_COUNT "std_sort relevance_rating_less found"]
    by (simp add: set_std_sort)
  moreover have "ranked ?ds" if "ties_transitive found"
    using std_sort_ranked [OF that] unfolding ranked_def by (rule sorted_wrt_take)
  ultimately show ?thesis
    using f by blast
qed

subsection \<open>A ranked result\<close>

lemma ln_three_halves: "1 / 10 \<le> ln (3 / 2 :: real)"
proof -
  have "exp (1 / 10 :: real) \<le> 1 + 1 / 10 + (1 / 10)\<^sup>2"
    by (rule exp_bound) simp_all
  also have "\<dots> \<le> 3 / 2"
    by (simp add: power2_eq_square)
  finally have e: "exp (1 / 10 :: real) \<le> 3 / 2" .
  have "0 < (3 / 2 :: real)" by simp
  from ln_ge_iff [OF this, of "1 / 10"] e show ?thesis by blast
qed

lemma demo_red_query:
  "ParseQuery demo_server ''red'' = Inr \<lparr>plus_words = [''red''], minus_words = []\<rparr>"
  by (simp add: demo_server_def query_eval)

lemma demo_red_found:
  "FindAllDocuments demo_server \<lparr>plus_words = [''red''], minus_words = []\<rparr>
     (\<lambda>document_id st r. st = ACTUAL)
   = Inr [\<lparr>doc_id = 2, relevance = ln (3 / 2) / 4, rating = 3\<rparr>,
          \<lparr>doc_id = 3, relevance = ln (3 / 2) / 8, rating = 1\<rparr>]"
  by (simp add: demo_server_def FindAllDocuments_def ComputeWordInverseDocumentFreq_def
      GetDocumentCount_def container_eval)

lemma demo_red_ties:
  "ties_transitive [\<lparr>doc_id = 2, relevance = ln (3 / 2) / 4, rating = 3\<rparr>,
                    \<lparr>doc_id = 3, relevance = ln (3 / 2) / 8, rating = 1\<rparr>]"
  using ln_three_halves
  by (simp add: ties_transitive_def tied_def EPSILON_def)

theorem FindTopDocuments_ranking_witness:
  "\<exists>ds. FindTopDocuments demo_server ''red'' (\<lambda>document_id st r. st = ACTUAL) = Inr ds
      \<and> length ds \<le> 5
      \<and> set ds \<subseteq> {\<lparr>doc_id = 2, relevance = ln (3 / 2) / 4, rating = 3\<rparr>,
                     \<lparr>doc_id = 3, relevance = ln (3 / 2) / 8, rating = 1\<rparr>}
      \<and> ranked ds"
proof -
  have "''red'' \<noteq> []" by simp
  from FindTopDocuments_ranking [OF demo_engine demo_red_query this,
      of "\<lambda>document_id st r. st = ACTUAL"]
  show ?thesis
    unfolding demo_red_found using demo_red_ties by auto
qed

subsection \<open>A result that is not ranked\<close>

lemma SplitIntoWords_loop_repeat:
  "SplitIntoWords_loop (concat (replicate n ''y '') @ rest) words []
     = SplitIntoWords_loop rest (words @ replicate n ''y'') []"
proof (induction n arbitrary: words)
  case 0
  then show ?case by simp
next
  case (Suc n)
  have "SplitIntoWords_loop (concat (replicate (Suc n) ''y '') @ rest) words []
          = SplitIntoWords_loop (concat (replicate n ''y '') @ rest) (words @ [''y'']) []"
    by simp
  also have "\<dots> = SplitIntoWords_loop rest ((words @ [''y'']) @ replicate n ''y'') []"
    by (rule Suc.IH)
  also have "(words @ [''y'']) @ replicate n ''y'' = words @ replicate (Suc n) ''y''"
    by simp
  finally show ?case .
qed

lemma SplitIntoWords_long_document:
  "SplitIntoWords (long_document n) = replicate n ''y'' @ [''x'']"
  by (simp add: SplitIntoWords_def long_document_def SplitIntoWords_loop_repeat)

lemma map_of_add_word_freq:
  "map_of (add_word_freq document_id x word freqs) w =
     (if w = word
      then Some (map_put document_id
                   (map_index (map_index freqs word []) document_id 0 + x)
                   (map_index freqs word []))
      else map_of freqs w)"
  by (simp add: add_word_freq_def Let_def map_of_map_put)

lemma map_of_fold_add_word_freq:
  "map_of (fold (add_word_freq document_id x) ws freqs) w =
     (if w \<in> set ws
      then Some (map_put document_id
                   (map_index (map_index freqs w []) document_id 0
                      + real (count_list ws w) * x)
                   (map_index freqs w []))
      else map_of freqs w)"
proof (induction ws arbitrary: freqs)
  case Nil
  then show ?case by simp
next
  case (Cons word ws)
  let ?f1 = "add_word_freq document_id x word freqs"
  show ?case
  proof (cases "w = word")
    case True
    have p1: "map_index ?f1 word [] =
                map_put document_id (map_index (map_index freqs word []) document_id 0 + x)
                  (map_index freqs word [])"
      by (simp add: map_index_def map_of_add_word_freq)
    show ?thesis
    proof (cases "w \<in> set ws")
      case True
      with \<open>w = word\<close> Cons.IH [of ?f1] show ?thesis
        by (simp add: p1 map_index_map_put map_put_twice algebra_simps)
    next
      case False
      then have "count_list ws w = 0" by (simp add: count_list_0_iff)
      with False \<open>w = word\<close> Cons.IH [of ?f1] show ?thesis
        by (simp add: map_of_add_word_freq)
    qed
  next
    case False
    then have "map_index ?f1 w [] = map_index freqs w []"
      by (simp add: map_index_def map_of_add_word_freq)
    with False Cons.IH [of ?f1] show ?thesis
      by (simp add: map_of_add_word_freq)
  qed
qed

lemma AddDocument_index_lookup:
  assumes "0 \<le> document_id" and "\<not> map_count (documents s) document_id"
    and "list_all IsValidWord (SplitIntoWords document)"
  shows "map_of (word_to_document_freqs (snd (AddDocument document_id document st ratings s))) w =
     (if w \<in> set (filter (\<lambda>w. \<not> IsStopWord s w) (SplitIntoWords document))
      then Some (map_put document_id
                   (map_index (map_index (word_to_document_freqs s) w []) document_id 0
                      + real (count_list (filter (\<lambda>w. \<not> IsStopWord s w)
                                            (SplitIntoWords document)) w)
                        * (1 / real (length (filter (\<lambda>w. \<not> IsStopWord s w)
                                               (SplitIntoWords document)))))
                   (map_index (word_to_document_freqs s) w []))
      else map_of (word_to_document_freqs s) w)"
proof -
  have "word_to_document_freqs (snd (AddDocument document_id document st ratings s))
          = fold (add_word_freq document_id
                    (1 / real (length (filter (\<lambda>w. \<not> IsStopWord s w)
                                         (SplitIntoWords document)))))
              (filter (\<lambda>w. \<not> IsStopWord s w) (SplitIntoWords document))
              (word_to_document_freqs s)"
    by (simp add: AddDocument_success [OF assms])
  then show ?thesis
    by (simp only: map_of_fold_add_word_freq)
qed

text \<open>
  What \<^verbatim>\<open>AddDocument\<close> stores: on an engine state, the term frequency of a word of the
  new document is the number of its occurrences over the number of words of the document
  that are not stop words.
\<close>

lemma AddDocument_term_frequency:
  assumes inv: "server_inv s"
    and id: "0 \<le> document_id" "\<not> map_count (documents s) document_id"
    and v: "list_all IsValidWord (SplitIntoWords document)"
    and w: "w \<in> set (filter (\<lambda>w. \<not> IsStopWord s w) (SplitIntoWords document))"
  shows "term_frequency (snd (AddDocument document_id document st ratings s)) w document_id
           = real (count_list (filter (\<lambda>w. \<not> IsStopWord s w) (SplitIntoWords document)) w)
             / real (length (filter (\<lambda>w. \<not> IsStopWord s w) (SplitIntoWords document)))"
proof -
  let ?P = "map_index (word_to_document_freqs s) w []"
  have "map_of ?P document_id = None"
  proof (cases "map_of (word_to_document_freqs s) w")
    case None
    then show ?thesis by (simp add: map_index_def)
  next
    case (Some postings)
    from server_inv_postings(2) [OF inv Some] id(2)
    have "document_id \<notin> fst ` set postings"
      by (auto simp: list_all_iff)
    with Some show ?thesis
      by (simp add: map_index_def map_of_eq_None_iff)
  qed
  then have "map_index ?P document_id 0 = (0 :: real)"
    by (simp add: map_index_def)
  with w show ?thesis
    unfolding term_frequency_def
    by (simp add: map_index_def AddDocument_index_lookup [OF id v] map_of_map_put)
qed

lemma count_list_replicate: "count_list (replicate n a) b = (if a = b then n else 0)"
  by (induction n) auto

lemma AddDocument_long_document:
  assumes sw: "stop_words s = []"
    and id: "0 \<le> document_id" "\<not> map_count (documents s) document_id"
  shows "stop_words (snd (AddDocument document_id (long_document n) st ratings s)) = []"
    and "documents (snd (AddDocument document_id (long_document n) st ratings s))
           = map_put document_id \<lparr>rating_d = ComputeAverageRating ratings, status = st\<rparr>
               (documents s)"
    and "map_of (word_to_document_freqs
                   (snd (AddDocument document_id (long_document n) st ratings s))) ''x''
           = Some (map_put document_id
                     (map_index (map_index (word_to_document_freqs s) ''x'' []) document_id 0
                        + 1 / real (Suc n))
                     (map_index (word_to_document_freqs s) ''x'' []))"
proof -
  have v: "list_all IsValidWord (SplitIntoWords (long_document n))"
    by (simp add: SplitIntoWords_long_document list_all_iff IsValidWord_def)
  have f: "filter (\<lambda>w. \<not> IsStopWord s w) (SplitIntoWords (long_document n))
             = replicate n ''y'' @ [''x'']"
    by (simp add: IsStopWord_def sw SplitIntoWords_long_document)
  show "stop_words (snd (AddDocument document_id (long_document n) st ratings s)) = []"
    by (simp add: AddDocument_success [OF id v] sw)
  show "documents (snd (AddDocument document_id (long_document n) st ratings s))
           = map_put document_id \<lparr>rating_d = ComputeAverageRating ratings, status = st\<rparr>
               (documents s)"
    by (simp add: AddDocument_success [OF id v])
  show "map_of (word_to_document_freqs
                   (snd (AddDocument document_id (long_document n) st ratings s))) ''x''
           = Some (map_put document_id
                     (map_index (map_index (word_to_document_freqs s) ''x'' []) document_id 0
                        + 1 / real (Suc n))
                     (map_index (word_to_document_freqs s) ''x'' []))"
    unfolding AddDocument_index_lookup [OF id v] f
    by (simp add: count_list_replicate)
qed

lemma AddDocument_other_word:
  assumes sw: "stop_words s = []"
    and id: "0 \<le> document_id" "\<not> map_count (documents s) document_id"
  shows "stop_words (snd (AddDocument document_id ''z'' st ratings s)) = []"
    and "documents (snd (AddDocument document_id ''z'' st ratings s))
           = map_put document_id \<lparr>rating_d = ComputeAverageRating ratings, status = st\<rparr>
               (documents s)"
    and "map_of (word_to_document_freqs (snd (AddDocument document_id ''z'' st ratings s))) ''x''
           = map_of (word_to_document_freqs s) ''x''"
proof -
  have t: "SplitIntoWords ''z'' = [''z'']"
    by (simp add: SplitIntoWords_def)
  have v: "list_all IsValidWord (SplitIntoWords ''z'')"
    by (simp add: t IsValidWord_def)
  show "stop_words (snd (AddDocument document_id ''z'' st ratings s)) = []"
    by (simp add: AddDocument_success [OF id v] sw)
  show "documents (snd (AddDocument document_id ''z'' st ratings s))
           = map_put document_id \<lparr>rating_d = ComputeAverageRating ratings, status = st\<rparr>
               (documents s)"
    by (simp add: AddDocument_success [OF id v])
  show "map_of (word_to_document_freqs (snd (AddDocument document_id ''z'' st ratings s))) ''x''
           = map_of (word_to_document_freqs s) ''x''"
    unfolding AddDocument_index_lookup [OF id v]
    by (simp add: t IsStopWord_def sw)
qed

lemma cycle_server_state:
  "stop_words cycle_server = []"
  "documents cycle_server =
     [(1, \<lparr>rating_d = 3, status = ACTUAL\<rparr>), (2, \<lparr>rating_d = 2, status = ACTUAL\<rparr>),
      (3, \<lparr>rating_d = 1, status = ACTUAL\<rparr>), (4, \<lparr>rating_d = 0, status = ACTUAL\<rparr>),
      (5, \<lparr>rating_d = 0, status = ACTUAL\<rparr>), (6, \<lparr>rating_d = 0, status = ACTUAL\<rparr>)]"
  "map_of (word_to_document_freqs cycle_server) ''x''
     = Some [(1, 1 / 1002), (2, 1 / 1001), (3, 1 / 1000)]"
proof -
  define s1 where "s1 = snd (AddDocument 1 (long_document 1001) ACTUAL [3] empty_server)"
  define s2 where "s2 = snd (AddDocument 2 (long_document 1000) ACTUAL [2] s1)"
  define s3 where "s3 = snd (AddDocument 3 (long_document 999) ACTUAL [1] s2)"
  define s4 where "s4 = snd (AddDocument 4 ''z'' ACTUAL [] s3)"
  define s5 where "s5 = snd (AddDocument 5 ''z'' ACTUAL [] s4)"
  define s6 where "s6 = snd (AddDocument 6 ''z'' ACTUAL [] s5)"
  have c: "cycle_server = s6"
    by (simp add: cycle_server_def cycle_calls_def AddDocuments_def s1_def s2_def s3_def s4_def
        s5_def s6_def)
  have r: "ComputeAverageRating [3] = 3" "ComputeAverageRating [2] = 2"
    "ComputeAverageRating [1] = 1" "ComputeAverageRating [] = 0"
    by (simp_all add: ComputeAverageRating_def signed_divide_int_def)
  have e: "stop_words empty_server = []" "documents empty_server = []"
    "word_to_document_freqs empty_server = []"
    by (simp_all add: empty_server_def)
  have a1: "stop_words s1 = []"
    "documents s1 = [(1, \<lparr>rating_d = 3, status = ACTUAL\<rparr>)]"
    "map_of (word_to_document_freqs s1) ''x'' = Some [(1, 1 / 1002)]"
    unfolding s1_def
    using AddDocument_long_document [of empty_server 1 1001 ACTUAL "[3]"]
    by (simp_all add: e r map_count_def map_index_def)
  have a2: "stop_words s2 = []"
    "documents s2 = [(1, \<lparr>rating_d = 3, status = ACTUAL\<rparr>), (2, \<lparr>rating_d = 2, status = ACTUAL\<rparr>)]"
    "map_of (word_to_document_freqs s2) ''x'' = Some [(1, 1 / 1002), (2, 1 / 1001)]"
    unfolding s2_def
    using AddDocument_long_document [of s1 2 1000 ACTUAL "[2]"]
    by (simp_all add: a1 r map_count_def map_index_def)
  have a3: "stop_words s3 = []"
    "documents s3 = [(1, \<lparr>rating_d = 3, status = ACTUAL\<rparr>), (2, \<lparr>rating_d = 2, status = ACTUAL\<rparr>),
      (3, \<lparr>rating_d = 1, status = ACTUAL\<rparr>)]"
    "map_of (word_to_document_freqs s3) ''x'' = Some [(1, 1 / 1002), (2, 1 / 1001), (3, 1 / 1000)]"
    unfolding s3_def
    using AddDocument_long_document [of s2 3 999 ACTUAL "[1]"]
    by (simp_all add: a2 r map_count_def map_index_def)
  have a4: "stop_words s4 = []"
    "documents s4 = [(1, \<lparr>rating_d = 3, status = ACTUAL\<rparr>), (2, \<lparr>rating_d = 2, status = ACTUAL\<rparr>),
      (3, \<lparr>rating_d = 1, status = ACTUAL\<rparr>), (4, \<lparr>rating_d = 0, status = ACTUAL\<rparr>)]"
    "map_of (word_to_document_freqs s4) ''x'' = Some [(1, 1 / 1002), (2, 1 / 1001), (3, 1 / 1000)]"
    unfolding s4_def
    using AddDocument_other_word [of s3 4 ACTUAL "[]"]
    by (simp_all add: a3 r map_count_def)
  have a5: "stop_words s5 = []"
    "documents s5 = [(1, \<lparr>rating_d = 3, status = ACTUAL\<rparr>), (2, \<lparr>rating_d = 2, status = ACTUAL\<rparr>),
      (3, \<lparr>rating_d = 1, status = ACTUAL\<rparr>), (4, \<lparr>rating_d = 0, status = ACTUAL\<rparr>),
      (5, \<lparr>rating_d = 0, status = ACTUAL\<rparr>)]"
    "map_of (word_to_document_freqs s5) ''x'' = Some [(1, 1 / 1002), (2, 1 / 1001), (3, 1 / 1000)]"
    unfolding s5_def
    using AddDocument_other_word [of s4 5 ACTUAL "[]"]
    by (simp_all add: a4 r map_count_def)
  have a6: "stop_words s6 = []"
    "documents s6 = [(1, \<lparr>rating_d = 3, status = ACTUAL\<rparr>), (2, \<lparr>rating_d = 2, status = ACTUAL\<rparr>),
      (3, \<lparr>rating_d = 1, status = ACTUAL\<rparr>), (4, \<lparr>rating_d = 0, status = ACTUAL\<rparr>),
      (5, \<lparr>rating_d = 0, status = ACTUAL\<rparr>), (6, \<lparr>rating_d = 0, status = ACTUAL\<rparr>)]"
    "map_of (word_to_document_freqs s6) ''x'' = Some [(1, 1 / 1002), (2, 1 / 1001), (3, 1 / 1000)]"
    unfolding s6_def
    using AddDocument_other_word [of s5 6 ACTUAL "[]"]
    by (simp_all add: a5 r map_count_def)
  from a6 show "stop_words cycle_server = []"
    and "documents cycle_server =
     [(1, \<lparr>rating_d = 3, status = ACTUAL\<rparr>), (2, \<lparr>rating_d = 2, status = ACTUAL\<rparr>),
      (3, \<lparr>rating_d = 1, status = ACTUAL\<rparr>), (4, \<lparr>rating_d = 0, status = ACTUAL\<rparr>),
      (5, \<lparr>rating_d = 0, status = ACTUAL\<rparr>), (6, \<lparr>rating_d = 0, status = ACTUAL\<rparr>)]"
    and "map_of (word_to_document_freqs cycle_server) ''x''
     = Some [(1, 1 / 1002), (2, 1 / 1001), (3, 1 / 1000)]"
    by (simp_all only: c)
qed

lemma ln_two_lower: "3 / 5 \<le> ln (2 :: real)"
proof -
  have "exp (3 / 5 :: real) \<le> 1 + 3 / 5 + (3 / 5)\<^sup>2"
    by (rule exp_bound) simp_all
  also have "\<dots> \<le> 2"
    by (simp add: power2_eq_square)
  finally have e: "exp (3 / 5 :: real) \<le> 2" .
  have "0 < (2 :: real)" by simp
  from ln_ge_iff [OF this, of "3 / 5"] e show ?thesis by blast
qed

lemma cycle_ties:
  "tied cycle_a cycle_b" "tied cycle_b cycle_c" "\<not> tied cycle_a cycle_c"
  using ln_two_lower ln_2_less_1
  by (simp_all add: tied_def cycle_a_def cycle_b_def cycle_c_def EPSILON_def)

lemma cycle_order:
  "\<not> relevance_rating_less cycle_b cycle_a"
  "relevance_rating_less cycle_c cycle_a"
  "relevance_rating_less cycle_b cycle_c"
  "relevance_rating_less cycle_a cycle_b"
  using ln_two_lower ln_2_less_1
  by (simp_all add: relevance_rating_less_def cycle_a_def cycle_b_def cycle_c_def EPSILON_def)

lemma cycle_engine: "engine [] cycle_calls = Inr cycle_server"
  by (simp add: engine_def SearchServer_of_container_def MakeUniqueNonEmptyStrings_def
      cycle_server_def empty_server_def)

lemma cycle_query:
  "ParseQuery cycle_server ''x'' = Inr \<lparr>plus_words = [''x''], minus_words = []\<rparr>"
  by (simp add: query_eval cycle_server_state)

lemma cycle_found:
  "FindAllDocuments cycle_server \<lparr>plus_words = [''x''], minus_words = []\<rparr>
     (\<lambda>document_id st r. True) = Inr [cycle_a, cycle_b, cycle_c]"
  by (simp add: FindAllDocuments_def ComputeWordInverseDocumentFreq_def GetDocumentCount_def
      container_eval cycle_server_state cycle_a_def cycle_b_def cycle_c_def)

lemma cycle_sorted:
  "std_sort relevance_rating_less [cycle_a, cycle_b, cycle_c] = [cycle_c, cycle_a, cycle_b]"
  by (simp add: std_sort_def linear_insert_def cycle_order)

text \<open>
  The claim as stated fails. Three documents of 1002, 1001 and 1000 words hold the word
  \<open>x\<close> once, three further documents do not hold it: the relevances for the query \<open>x\<close>
  are \<open>ln 2 / 1002\<close>, \<open>ln 2 / 1001\<close> and \<open>ln 2 / 1000\<close>. Neighbours are within \<open>1e-6\<close>, the
  outer two are not, and the ratings 3, 2, 1 descend as the relevances ascend: each
  document precedes the next and the last precedes the first. The result puts the
  document of rating 1 before the one of rating 2 that is tied with it; by
  \<open>cycle_unrankable\<close> no arrangement of the three is sorted.
\<close>

theorem FindTopDocuments_ranking_counterexample:
  "engine [] cycle_calls = Inr cycle_server
   \<and> ParseQuery cycle_server ''x'' = Inr \<lparr>plus_words = [''x''], minus_words = []\<rparr>
   \<and> FindTopDocuments cycle_server ''x'' (\<lambda>document_id st r. True)
       = Inr [cycle_c, cycle_a, cycle_b]
   \<and> \<not> ranked [cycle_c, cycle_a, cycle_b]"
proof -
  have "FindTopDocuments cycle_server ''x'' (\<lambda>document_id st r. True)
          = Inr [cycle_c, cycle_a, cycle_b]"
    by (simp add: FindTopDocuments_results [OF cycle_query] cycle_found cycle_sorted
        MAX_RESULT_DOCUMENT_COUNT_def)
  moreover have "\<not> ranked_before cycle_c cycle_b"
    using cycle_ties(2) by (simp add: ranked_before_def tied_sym cycle_b_def cycle_c_def)
  then have "\<not> ranked [cycle_c, cycle_a, cycle_b]"
    by (simp add: ranked_def)
  ultimately show ?thesis
    using cycle_engine cycle_query by simp
qed

lemma cycle_unrankable:
  assumes "mset ds = mset [cycle_a, cycle_b, cycle_c]"
  shows "\<not> ranked ds"
proof
  assume r: "ranked ds"
  have d: "cycle_a \<noteq> cycle_b" "cycle_b \<noteq> cycle_c" "cycle_a \<noteq> cycle_c"
    by (simp_all add: cycle_a_def cycle_b_def cycle_c_def)
  have n: "\<not> ranked_before cycle_b cycle_a" "\<not> ranked_before cycle_c cycle_b"
    "\<not> ranked_before cycle_a cycle_c"
    using cycle_order by (simp_all add: ranked_before_iff)
  from assms have "length ds = 3"
    by (metis length_Cons list.size(3) mset_eq_length numeral_3_eq_3)
  then obtain x y z where ds: "ds = [x, y, z]"
    by (metis length_0_conv length_Suc_conv numeral_3_eq_3)
  from r ds have o: "ranked_before x y" "ranked_before y z" "ranked_before x z"
    by (simp_all add: ranked_def)
  from assms ds have s: "set [x, y, z] = {cycle_a, cycle_b, cycle_c}"
    by (metis list.simps(15) empty_set set_mset_mset)
  from assms ds have "distinct [x, y, z]"
    using d by (metis distinct.simps(2) distinct_length_2_or_more distinct_singleton
        mset_eq_imp_distinct_iff)
  then have xyz: "x \<noteq> y" "y \<noteq> z" "x \<noteq> z"
    by simp_all
  have "x \<in> set [x, y, z]" "y \<in> set [x, y, z]" "z \<in> set [x, y, z]"
    by simp_all
  then have "x = cycle_a \<or> x = cycle_b \<or> x = cycle_c"
    and "y = cycle_a \<or> y = cycle_b \<or> y = cycle_c"
    and "z = cycle_a \<or> z = cycle_b \<or> z = cycle_c"
    unfolding s by simp_all
  with xyz o n show False
    by (elim disjE) simp_all
qed

end
